theory Spec2Isabelle
  imports Main "HOL-Library.Word" "HOL-Library.AList" "HOL-Library.Multiset"
begin

unbundle bit_operations_syntax

section \<open>The data model of recs.h\<close>

text \<open>
  An entity handle is the pair of 32-bit fields of \<^verbatim>\<open>struct Entity\<close>. The field
  \<^verbatim>\<open>id\<close> is called \<open>eid\<close> here because \<open>id\<close> is the identity function of HOL.
\<close>

record Entity =
  eid :: "32 word"
  generation :: "32 word"

text \<open>
  A \<^verbatim>\<open>ComponentID\<close> is the number handed out by \<^verbatim>\<open>component_id<T>()\<close>; the assertion in
  \<^verbatim>\<open>next_component_id\<close> keeps it below \<^verbatim>\<open>RECS_MAX_COMPONENTS\<close>. A template parameter pack
  \<^verbatim>\<open>Cs...\<close> is the list of the component ids of its types.
\<close>

type_synonym ComponentID = nat

definition RECS_MAX_COMPONENTS :: nat where
  "RECS_MAX_COMPONENTS = 64"

text \<open>\<^verbatim>\<open>struct ArchetypeKey\<close> has the single field \<^verbatim>\<open>uint64_t mask\<close>; the key is that mask.\<close>

type_synonym ArchetypeKey = "64 word"

definition key_add :: "ArchetypeKey \<Rightarrow> ComponentID \<Rightarrow> ArchetypeKey" where
  "key_add m c = m OR push_bit c 1"

definition key_remove :: "ArchetypeKey \<Rightarrow> ComponentID \<Rightarrow> ArchetypeKey" where
  "key_remove m c = m AND NOT (push_bit c 1)"

definition key_has :: "ArchetypeKey \<Rightarrow> ComponentID \<Rightarrow> bool" where
  "key_has m c = (m AND push_bit c 1 \<noteq> 0)"

text \<open>
  Everything that is undefined behaviour or a failed assertion in the C++ is a value of
  \<open>fault\<close>: reading through a null \<^verbatim>\<open>Archetype*\<close>, indexing a vector outside its size, and
  the \<^verbatim>\<open>assert\<close>s of the header. \<open>DanglingPointer\<close> is the case of an \<^verbatim>\<open>Archetype*\<close> that
  names no element of \<^verbatim>\<open>archetypes_\<close>; the header never erases an archetype, so it
  only arises from states that the header cannot build.
\<close>

datatype fault = NullDeref | OutOfRange | AssertFail | DanglingPointer

definition bindF :: "fault + 'a \<Rightarrow> ('a \<Rightarrow> fault + 'b) \<Rightarrow> fault + 'b" where
  "bindF m f = (case m of Inl e \<Rightarrow> Inl e | Inr x \<Rightarrow> f x)"

text \<open>
  A \<^verbatim>\<open>ComponentArray\<close> is a type-erased \<^verbatim>\<open>std::vector<T>\<close>: \<open>None\<close> is \<^verbatim>\<open>data == nullptr\<close>,
  \<open>Some xs\<close> the vector with elements \<open>xs\<close>. The function pointers of the struct are
  fixed by \<open>T\<close>, and the component id fixes \<open>T\<close>, so they are the three functions
  below. \<^verbatim>\<open>emplace_back()\<close> value-initialises the new element; that value is \<open>0\<close>.
\<close>

type_synonym 'v ComponentArray = "'v list option"

definition clone_empty :: "'v ComponentArray \<Rightarrow> 'v ComponentArray" where
  "clone_empty proto = (case proto of None \<Rightarrow> None | Some xs \<Rightarrow> Some [])"

definition move_and_pop :: "'v list \<Rightarrow> nat \<Rightarrow> nat \<Rightarrow> fault + 'v list" where
  "move_and_pop vec i last_row =
     (if i < length vec \<and> last_row < length vec
      then Inr (butlast (vec[i := vec ! last_row])) else Inl OutOfRange)"

definition copy_element :: "'v list \<Rightarrow> 'v list \<Rightarrow> nat \<Rightarrow> fault + 'v list" where
  "copy_element d s src_idx =
     (if src_idx < length s then Inr (d @ [s ! src_idx]) else Inl OutOfRange)"

definition emplace_default :: "('v::zero) list \<Rightarrow> 'v list" where
  "emplace_default vec = vec @ [0]"

record 'v Archetype =
  key :: ArchetypeKey
  entities :: "Entity list"
  components :: "ComponentID \<Rightarrow> 'v ComponentArray"

text \<open>
  \<^verbatim>\<open>struct Location\<close>: an \<^verbatim>\<open>Archetype*\<close> points at an element of the unordered map
  \<^verbatim>\<open>archetypes_\<close>, whose elements never move and are never erased, so the pointer is the
  map key of that element and \<^verbatim>\<open>nullptr\<close> is \<open>None\<close>.
\<close>

record Location =
  arch :: "ArchetypeKey option"
  index :: nat

type_synonym callback = nat

type_synonym call = "callback \<times> Entity"

record EventHandlers =
  on_add :: "callback list"
  on_remove :: "callback list"

text \<open>
  The fields of \<^verbatim>\<open>class World\<close> without their trailing underscore. \<^verbatim>\<open>archetypes_\<close> is an
  association list in insertion order: the iteration order of an unordered map is
  unspecified, and this is one such order. A callback is known by a number; calling it
  with an entity is recorded as the pair of both. The resource table is left out:
  no operation below reads or writes it.
\<close>

record 'v World =
  generations :: "32 word list"
  free_ids :: "32 word list"
  archetypes :: "(ArchetypeKey \<times> 'v Archetype) list"
  entity_locations :: "Location list"
  event_handlers :: "ComponentID \<Rightarrow> EventHandlers option"

definition empty_world :: "'v World" where
  "empty_world = \<lparr>generations = [], free_ids = [], archetypes = [],
     entity_locations = [], event_handlers = (\<lambda>c. None)\<rparr>"

definition arch_at :: "(ArchetypeKey \<times> 'v Archetype) list \<Rightarrow> ArchetypeKey \<Rightarrow> fault + 'v Archetype" where
  "arch_at archs k = (case map_of archs k of None \<Rightarrow> Inl DanglingPointer | Some a \<Rightarrow> Inr a)"

text \<open>The loop \<^verbatim>\<open>for (ComponentID id = 0; id < RECS_MAX_COMPONENTS; ++id)\<close> runs a body
  over \<open>[0..<RECS_MAX_COMPONENTS]\<close> and stops at the first fault.\<close>

fun for_ids :: "nat list \<Rightarrow> (nat \<Rightarrow> 's \<Rightarrow> fault + 's) \<Rightarrow> 's \<Rightarrow> fault + 's" where
  "for_ids [] body s = Inr s"
| "for_ids (i # is) body s = (case body i s of Inl e \<Rightarrow> Inl e | Inr s' \<Rightarrow> for_ids is body s')"

section \<open>Entity directory\<close>

definition alive_unsafe :: "Entity \<Rightarrow> 'v World \<Rightarrow> bool" where
  "alive_unsafe e w =
     (unat (eid e) < length (generations w) \<and> generations w ! unat (eid e) = generation e)"

definition resize :: "Location list \<Rightarrow> nat \<Rightarrow> Location list" where
  "resize locs n = take n locs @ replicate (n - length locs) \<lparr>arch = None, index = 0\<rparr>"

definition create_unsafe :: "'v World \<Rightarrow> fault + (Entity \<times> 'v World)" where
  "create_unsafe w =
     (let (i, w1) =
            (if free_ids w \<noteq> []
             then (last (free_ids w), w\<lparr>free_ids := butlast (free_ids w)\<rparr>)
             else (word_of_nat (length (generations w)), w\<lparr>generations := generations w @ [0]\<rparr>))
      in if length (generations w1) \<le> unat i then Inl OutOfRange
         else
           let e = \<lparr>eid = i, generation = generations w1 ! unat i\<rparr>;
               locs = (if length (entity_locations w1) \<le> unat i
                       then resize (entity_locations w1) (unat (i + 1))
                       else entity_locations w1)
           in if length locs \<le> unat i then Inl OutOfRange
              else Inr (e, w1\<lparr>entity_locations := locs[unat i := \<lparr>arch = None, index = 0\<rparr>]\<rparr>))"

text \<open>\<^verbatim>\<open>remove_from_archetype(e, arch, index)\<close>; \<open>k\<close> is the pointer \<^verbatim>\<open>&arch\<close>.\<close>

definition pop_step :: "ArchetypeKey \<Rightarrow> nat \<Rightarrow> nat \<Rightarrow> ComponentID \<Rightarrow>
    (ComponentID \<Rightarrow> 'v ComponentArray) \<Rightarrow> fault + (ComponentID \<Rightarrow> 'v ComponentArray)" where
  "pop_step m i last_row c comps =
     (if \<not> key_has m c then Inr comps
      else case comps c of
             None \<Rightarrow> Inl AssertFail
           | Some vec \<Rightarrow> bindF (move_and_pop vec i last_row) (\<lambda>vec'. Inr (comps(c \<mapsto> vec'))))"

definition remove_from_archetype :: "Entity \<Rightarrow> ArchetypeKey \<Rightarrow> nat \<Rightarrow> 'v World \<Rightarrow> fault + 'v World" where
  "remove_from_archetype e k i w =
     bindF (arch_at (archetypes w) k) (\<lambda>a.
       if entities a = [] then Inl OutOfRange
       else
         let last_row = length (entities a) - 1;
             moved = entities a ! last_row
         in if length (entities a) \<le> i then Inl OutOfRange
            else
              bindF (for_ids [0..<RECS_MAX_COMPONENTS] (pop_step (key a) i last_row) (components a))
                (\<lambda>comps.
                  let a' = a\<lparr>entities := butlast ((entities a)[i := moved]), components := comps\<rparr>;
                      locs = entity_locations w
                  in if length locs \<le> unat (eid moved) then Inl OutOfRange
                     else
                       let locs1 = locs[unat (eid moved) := (locs ! unat (eid moved))\<lparr>index := i\<rparr>]
                       in if length locs1 \<le> unat (eid e) then Inl OutOfRange
                          else Inr (w\<lparr>archetypes := AList.update k a' (archetypes w),
                                      entity_locations := locs1[unat (eid e) := \<lparr>arch = None, index = 0\<rparr>]\<rparr>)))"

definition destroy_unsafe :: "Entity \<Rightarrow> 'v World \<Rightarrow> fault + 'v World" where
  "destroy_unsafe e w =
     (if \<not> alive_unsafe e w then Inr w
      else if length (entity_locations w) \<le> unat (eid e) then Inl OutOfRange
      else
        let loc = entity_locations w ! unat (eid e)
        in case arch loc of
             None \<Rightarrow> Inl NullDeref
           | Some k \<Rightarrow>
               bindF (remove_from_archetype e k (index loc) w) (\<lambda>w1.
                 if length (generations w1) \<le> unat (eid e) then Inl OutOfRange
                 else Inr (w1\<lparr>generations := (generations w1)[unat (eid e) := generations w1 ! unat (eid e) + 1],
                              free_ids := free_ids w1 @ [eid e]\<rparr>)))"

section \<open>Component access\<close>

text \<open>A \<^verbatim>\<open>C*\<close> into a column is the archetype, the component id and the row.\<close>

record cptr =
  p_arch :: ArchetypeKey
  p_comp :: ComponentID
  p_row :: nat

definition get_array :: "'v Archetype \<Rightarrow> ComponentID \<Rightarrow> fault + 'v list" where
  "get_array a c = (case components a c of None \<Rightarrow> Inl AssertFail | Some vec \<Rightarrow> Inr vec)"

definition get_unsafe :: "ComponentID \<Rightarrow> Entity \<Rightarrow> 'v World \<Rightarrow> fault + cptr option" where
  "get_unsafe c e w =
     (if \<not> alive_unsafe e w then Inr None
      else if length (entity_locations w) \<le> unat (eid e) then Inl OutOfRange
      else
        let loc = entity_locations w ! unat (eid e)
        in case arch loc of
             None \<Rightarrow> Inr None
           | Some k \<Rightarrow>
               bindF (arch_at (archetypes w) k) (\<lambda>a.
                 if \<not> key_has (key a) c then Inr None
                 else bindF (get_array a c) (\<lambda>vec.
                   if length vec \<le> index loc then Inl OutOfRange
                   else Inr (Some \<lparr>p_arch = k, p_comp = c, p_row = index loc\<rparr>))))"

definition has :: "ComponentID \<Rightarrow> Entity \<Rightarrow> 'v World \<Rightarrow> fault + bool" where
  "has c e w =
     (if \<not> alive_unsafe e w then Inr False
      else if length (entity_locations w) \<le> unat (eid e) then Inl OutOfRange
      else
        let loc = entity_locations w ! unat (eid e)
        in case arch loc of
             None \<Rightarrow> Inr False
           | Some k \<Rightarrow> bindF (arch_at (archetypes w) k) (\<lambda>a. Inr (key_has (key a) c)))"

text \<open>Reading and writing through a pointer that \<open>get_unsafe\<close> returned.\<close>

definition load :: "'v World \<Rightarrow> cptr \<Rightarrow> fault + 'v" where
  "load w p =
     bindF (arch_at (archetypes w) (p_arch p)) (\<lambda>a.
       bindF (get_array a (p_comp p)) (\<lambda>vec.
         if length vec \<le> p_row p then Inl OutOfRange else Inr (vec ! p_row p)))"

definition store :: "cptr \<Rightarrow> 'v \<Rightarrow> 'v World \<Rightarrow> fault + 'v World" where
  "store p v w =
     bindF (arch_at (archetypes w) (p_arch p)) (\<lambda>a.
       bindF (get_array a (p_comp p)) (\<lambda>vec.
         if length vec \<le> p_row p then Inl OutOfRange
         else Inr (w\<lparr>archetypes :=
                 AList.update (p_arch p)
                   (a\<lparr>components := (components a)(p_comp p \<mapsto> vec[p_row p := v])\<rparr>)
                   (archetypes w)\<rparr>)))"

text \<open>What a caller reads from \<^verbatim>\<open>get<C>(e)\<close>: nothing for a null pointer, else the value.\<close>

definition get_value :: "ComponentID \<Rightarrow> Entity \<Rightarrow> 'v World \<Rightarrow> fault + 'v option" where
  "get_value c e w =
     bindF (get_unsafe c e w) (\<lambda>r.
       case r of None \<Rightarrow> Inr None | Some p \<Rightarrow> bindF (load w p) (\<lambda>v. Inr (Some v)))"

section \<open>Event hooks\<close>

definition on_component_added :: "ComponentID \<Rightarrow> callback \<Rightarrow> 'v World \<Rightarrow> 'v World" where
  "on_component_added c cb w =
     (let h = (case event_handlers w c of None \<Rightarrow> \<lparr>on_add = [], on_remove = []\<rparr> | Some h \<Rightarrow> h)
      in w\<lparr>event_handlers := (event_handlers w)(c \<mapsto> h\<lparr>on_add := on_add h @ [cb]\<rparr>)\<rparr>)"

definition on_component_removed :: "ComponentID \<Rightarrow> callback \<Rightarrow> 'v World \<Rightarrow> 'v World" where
  "on_component_removed c cb w =
     (let h = (case event_handlers w c of None \<Rightarrow> \<lparr>on_add = [], on_remove = []\<rparr> | Some h \<Rightarrow> h)
      in w\<lparr>event_handlers := (event_handlers w)(c \<mapsto> h\<lparr>on_remove := on_remove h @ [cb]\<rparr>)\<rparr>)"

definition fire_component_added :: "ComponentID \<Rightarrow> Entity \<Rightarrow> 'v World \<Rightarrow> call list" where
  "fire_component_added c e w =
     (case event_handlers w c of None \<Rightarrow> [] | Some h \<Rightarrow> map (\<lambda>cb. (cb, e)) (on_add h))"

definition fire_component_removed :: "ComponentID \<Rightarrow> Entity \<Rightarrow> 'v World \<Rightarrow> call list" where
  "fire_component_removed c e w =
     (case event_handlers w c of None \<Rightarrow> [] | Some h \<Rightarrow> map (\<lambda>cb. (cb, e)) (on_remove h))"

section \<open>Migration\<close>

text \<open>\<^verbatim>\<open>get_or_create_archetype(key)\<close> returns a reference to the element with that mask;
  here it returns the map, and the reference is the mask.\<close>

definition get_or_create_archetype ::
    "ArchetypeKey \<Rightarrow> (ArchetypeKey \<times> 'v Archetype) list \<Rightarrow> (ArchetypeKey \<times> 'v Archetype) list" where
  "get_or_create_archetype k archs =
     (case map_of archs k of
        Some a \<Rightarrow> archs
      | None \<Rightarrow> archs @ [(k, \<lparr>key = k, entities = [], components = (\<lambda>c. None)\<rparr>)])"

definition ensure_array :: "'v Archetype \<Rightarrow> ComponentID \<Rightarrow> 'v Archetype" where
  "ensure_array a c =
     (if components a c = None then a\<lparr>components := (components a)(c \<mapsto> [])\<rparr> else a)"

text \<open>
  The two loops of \<open>migrate\<close> that run when the entity has an old archetype. They write
  the columns of \<^verbatim>\<open>new_arch\<close> and read those of \<^verbatim>\<open>*old_arch\<close>; the two may be the same
  archetype, so each step looks both up in the map as it stands.
\<close>

definition clone_step :: "ArchetypeKey \<Rightarrow> ArchetypeKey \<Rightarrow> ComponentID \<Rightarrow>
    (ArchetypeKey \<times> 'v Archetype) list \<Rightarrow> fault + (ArchetypeKey \<times> 'v Archetype) list" where
  "clone_step old_arch new_key c archs =
     (if \<not> key_has new_key c then Inr archs
      else
        bindF (arch_at archs new_key) (\<lambda>na.
          if components na c = None
          then bindF (arch_at archs old_arch) (\<lambda>oa.
                 if key_has (key oa) c
                 then Inr (AList.update new_key
                        (na\<lparr>components := (components na)(c := clone_empty (components oa c))\<rparr>) archs)
                 else Inr archs)
          else Inr archs))"

definition copy_step :: "ArchetypeKey \<Rightarrow> ArchetypeKey \<Rightarrow> nat \<Rightarrow> ComponentID \<Rightarrow>
    (ArchetypeKey \<times> ('v::zero) Archetype) list \<Rightarrow> fault + (ArchetypeKey \<times> 'v Archetype) list" where
  "copy_step old_arch new_key old_index c archs =
     (if \<not> key_has new_key c then Inr archs
      else
        bindF (arch_at archs new_key) (\<lambda>na.
          bindF (arch_at archs old_arch) (\<lambda>oa.
            if key_has (key oa) c
            then (case components na c of
                    None \<Rightarrow> Inl AssertFail
                  | Some d \<Rightarrow>
                      (case components oa c of
                         None \<Rightarrow> Inl AssertFail
                       | Some s \<Rightarrow>
                           bindF (copy_element d s old_index) (\<lambda>d'.
                             Inr (AList.update new_key
                                    (na\<lparr>components := (components na)(c \<mapsto> d')\<rparr>) archs))))
            else (case components na c of
                    None \<Rightarrow> Inl AssertFail
                  | Some d \<Rightarrow>
                      Inr (AList.update new_key
                             (na\<lparr>components := (components na)(c \<mapsto> emplace_default d)\<rparr>) archs)))))"

text \<open>The loop of the branch without an old archetype; it only touches \<^verbatim>\<open>new_arch\<close>.\<close>

definition default_step :: "ArchetypeKey \<Rightarrow> ComponentID \<Rightarrow>
    (ComponentID \<Rightarrow> ('v::zero) ComponentArray) \<Rightarrow> fault + (ComponentID \<Rightarrow> 'v ComponentArray)" where
  "default_step new_key c comps =
     (if \<not> key_has new_key c then Inr comps
      else case comps c of
             None \<Rightarrow> Inl AssertFail
           | Some vec \<Rightarrow> Inr (comps(c \<mapsto> emplace_default vec)))"

definition migrate :: "ComponentID list \<Rightarrow> Entity \<Rightarrow> bool \<Rightarrow> ('v::zero) World \<Rightarrow>
    fault + ('v World \<times> call list)" where
  "migrate Cs e adding w =
     (if length (entity_locations w) \<le> unat (eid e) then Inl OutOfRange
      else
        let old_arch = arch (entity_locations w ! unat (eid e))
        in bindF (case old_arch of
                    None \<Rightarrow> Inr 0
                  | Some ok \<Rightarrow> bindF (arch_at (archetypes w) ok) (\<lambda>oa. Inr (key oa)))
             (\<lambda>k0.
               let new_key = (if adding then foldl key_add k0 Cs else foldl key_remove k0 Cs);
                   archs1 = get_or_create_archetype new_key (archetypes w)
               in bindF (arch_at archs1 new_key) (\<lambda>na.
                    let new_index = length (entities na);
                        na1 = na\<lparr>entities := entities na @ [e]\<rparr>;
                        na2 = (if adding then foldl ensure_array na1 Cs else na1)
                    in bindF
                         (case old_arch of
                            Some ok \<Rightarrow>
                              let old_index = index (entity_locations w ! unat (eid e));
                                  archs2 = AList.update new_key na2 archs1
                              in bindF (for_ids [0..<RECS_MAX_COMPONENTS] (clone_step ok new_key) archs2)
                                   (\<lambda>archs3.
                                     bindF (for_ids [0..<RECS_MAX_COMPONENTS]
                                              (copy_step ok new_key old_index) archs3)
                                       (\<lambda>archs4.
                                         remove_from_archetype e ok old_index (w\<lparr>archetypes := archs4\<rparr>)))
                          | None \<Rightarrow>
                              bindF (for_ids [0..<RECS_MAX_COMPONENTS] (default_step new_key) (components na2))
                                (\<lambda>comps.
                                  Inr (w\<lparr>archetypes :=
                                          AList.update new_key (na2\<lparr>components := comps\<rparr>) archs1\<rparr>)))
                         (\<lambda>w1.
                           let w2 = w1\<lparr>entity_locations :=
                                      (entity_locations w1)[unat (eid e) :=
                                         \<lparr>arch = Some new_key, index = new_index\<rparr>]\<rparr>
                           in Inr (w2,
                                if adding then concat (map (\<lambda>c. fire_component_added c e w2) Cs)
                                else concat (map (\<lambda>c. fire_component_removed c e w2) Cs))))))"

section \<open>The public operations\<close>

text \<open>
  Each takes \<^verbatim>\<open>world_mutex_\<close> and calls the function of the same name; the lock has no
  effect on a single caller and is not part of the state. \<open>add_value\<close> is the overload
  \<^verbatim>\<open>add<C>(e, args...)\<close> with \<open>v\<close> the value \<^verbatim>\<open>C{args...}\<close>.
\<close>

definition add :: "ComponentID list \<Rightarrow> Entity \<Rightarrow> ('v::zero) World \<Rightarrow> fault + ('v World \<times> call list)" where
  "add Cs e w = migrate Cs e True w"

definition remove :: "ComponentID list \<Rightarrow> Entity \<Rightarrow> ('v::zero) World \<Rightarrow> fault + ('v World \<times> call list)" where
  "remove Cs e w = migrate Cs e False w"

definition add_value :: "ComponentID \<Rightarrow> Entity \<Rightarrow> 'v \<Rightarrow> ('v::zero) World \<Rightarrow> fault + ('v World \<times> call list)" where
  "add_value c e v w =
     bindF (migrate [c] e True w) (\<lambda>(w1, calls).
       bindF (get_unsafe c e w1) (\<lambda>r.
         case r of
           None \<Rightarrow> Inr (w1, calls)
         | Some p \<Rightarrow> bindF (store p v w1) (\<lambda>w2. Inr (w2, calls))))"

fun create_batch :: "nat \<Rightarrow> 'v World \<Rightarrow> fault + (Entity list \<times> 'v World)" where
  "create_batch 0 w = Inr ([], w)"
| "create_batch (Suc n) w =
     bindF (create_unsafe w) (\<lambda>(e, w1).
       bindF (create_batch n w1) (\<lambda>(es, w2). Inr (e # es, w2)))"

fun destroy_batch :: "Entity list \<Rightarrow> 'v World \<Rightarrow> fault + 'v World" where
  "destroy_batch [] w = Inr w"
| "destroy_batch (e # es) w = bindF (destroy_unsafe e w) (destroy_batch es)"

section \<open>Iteration\<close>

text \<open>
  A callback of \<^verbatim>\<open>for_each<Cs...>\<close> or \<^verbatim>\<open>Query<Cs...>::each\<close> receives references to the
  components \<open>Cs\<close> of one row. The call is recorded as a \<open>visit\<close>: the archetype, the
  row and the values handed over. \<^verbatim>\<open>(*get_array<C>(arch))[i]\<close> asserts that the column
  exists and indexes it.
\<close>

type_synonym 'v visit = "ArchetypeKey \<times> nat \<times> 'v list"

fun fetch_row :: "'v Archetype \<Rightarrow> nat \<Rightarrow> ComponentID list \<Rightarrow> fault + 'v list" where
  "fetch_row a i [] = Inr []"
| "fetch_row a i (c # cs) =
     bindF (get_array a c) (\<lambda>vec.
       if length vec \<le> i then Inl OutOfRange
       else bindF (fetch_row a i cs) (\<lambda>vs. Inr (vec ! i # vs)))"

fun visit_rows :: "ArchetypeKey \<Rightarrow> 'v Archetype \<Rightarrow> ComponentID list \<Rightarrow> nat list \<Rightarrow> fault + 'v visit list" where
  "visit_rows k a Cs [] = Inr []"
| "visit_rows k a Cs (i # is) =
     bindF (fetch_row a i Cs) (\<lambda>vs.
       bindF (visit_rows k a Cs is) (\<lambda>rest. Inr ((k, i, vs) # rest)))"

fun for_each_archs :: "ComponentID list \<Rightarrow> ArchetypeKey \<Rightarrow> (ArchetypeKey \<times> 'v Archetype) list \<Rightarrow>
    fault + 'v visit list" where
  "for_each_archs Cs required [] = Inr []"
| "for_each_archs Cs required ((k, a) # rest) =
     (if key a AND required \<noteq> required then for_each_archs Cs required rest
      else bindF (visit_rows k a Cs [0..<length (entities a)]) (\<lambda>vs.
             bindF (for_each_archs Cs required rest) (\<lambda>vs'. Inr (vs @ vs'))))"

definition for_each :: "ComponentID list \<Rightarrow> 'v World \<Rightarrow> fault + 'v visit list" where
  "for_each Cs w = for_each_archs Cs (foldl key_add 0 Cs) (archetypes w)"

text \<open>
  A callback of \<^verbatim>\<open>for_each_chunk<Cs...>\<close> receives one base pointer per component and the
  row count. A base pointer \<^verbatim>\<open>get_array<C>(arch)->data()\<close> is recorded as the contents of
  the vector it points into.
\<close>

record 'v chunk =
  ch_arch :: ArchetypeKey
  ch_base :: "'v list list"
  ch_count :: nat

fun base_pointers :: "'v Archetype \<Rightarrow> ComponentID list \<Rightarrow> fault + 'v list list" where
  "base_pointers a [] = Inr []"
| "base_pointers a (c # cs) =
     bindF (get_array a c) (\<lambda>vec. bindF (base_pointers a cs) (\<lambda>bs. Inr (vec # bs)))"

fun for_each_chunk_archs :: "ComponentID list \<Rightarrow> ArchetypeKey \<Rightarrow> (ArchetypeKey \<times> 'v Archetype) list \<Rightarrow>
    fault + 'v chunk list" where
  "for_each_chunk_archs Cs required [] = Inr []"
| "for_each_chunk_archs Cs required ((k, a) # rest) =
     (if key a AND required \<noteq> required then for_each_chunk_archs Cs required rest
      else if entities a = [] then for_each_chunk_archs Cs required rest
      else bindF (base_pointers a Cs) (\<lambda>bs.
             bindF (for_each_chunk_archs Cs required rest) (\<lambda>chs.
               Inr (\<lparr>ch_arch = k, ch_base = bs, ch_count = length (entities a)\<rparr> # chs))))"

definition for_each_chunk :: "ComponentID list \<Rightarrow> 'v World \<Rightarrow> fault + 'v chunk list" where
  "for_each_chunk Cs w = for_each_chunk_archs Cs (foldl key_add 0 Cs) (archetypes w)"

text \<open>
  The rows a chunk callback covers when it reads \<^verbatim>\<open>p[i]\<close> for \<^verbatim>\<open>i < count\<close> from each base
  pointer; reading past the end of a vector is a fault.
\<close>

fun read_bases :: "'v list list \<Rightarrow> nat \<Rightarrow> fault + 'v list" where
  "read_bases [] i = Inr []"
| "read_bases (vec # bs) i =
     (if length vec \<le> i then Inl OutOfRange
      else bindF (read_bases bs i) (\<lambda>vs. Inr (vec ! i # vs)))"

fun chunk_rows_from :: "ArchetypeKey \<Rightarrow> 'v list list \<Rightarrow> nat list \<Rightarrow> fault + 'v visit list" where
  "chunk_rows_from k bs [] = Inr []"
| "chunk_rows_from k bs (i # is) =
     bindF (read_bases bs i) (\<lambda>vs.
       bindF (chunk_rows_from k bs is) (\<lambda>rest. Inr ((k, i, vs) # rest)))"

definition chunk_rows :: "'v chunk \<Rightarrow> fault + 'v visit list" where
  "chunk_rows ch = chunk_rows_from (ch_arch ch) (ch_base ch) [0..<ch_count ch]"

fun chunks_rows :: "'v chunk list \<Rightarrow> fault + 'v visit list" where
  "chunks_rows [] = Inr []"
| "chunks_rows (ch # chs) =
     bindF (chunk_rows ch) (\<lambda>vs. bindF (chunks_rows chs) (\<lambda>vs'. Inr (vs @ vs')))"

text \<open>The entity of the row a visit names, and the visit as an (entity, values) pair.\<close>

definition entity_pair :: "'v World \<Rightarrow> 'v visit \<Rightarrow> Entity \<times> 'v list" where
  "entity_pair w v =
     (case v of (k, i, vs) \<Rightarrow>
        (case map_of (archetypes w) k of
           None \<Rightarrow> (\<lparr>eid = 0, generation = 0\<rparr>, vs)
         | Some a \<Rightarrow> (if i < length (entities a) then entities a ! i else \<lparr>eid = 0, generation = 0\<rparr>, vs)))"

subsection \<open>Query builder\<close>

record Query =
  q_components :: "ComponentID list"
  exclude_mask :: ArchetypeKey

definition query :: "ComponentID list \<Rightarrow> Query" where
  "query Cs = \<lparr>q_components = Cs, exclude_mask = 0\<rparr>"

definition exclude :: "ComponentID list \<Rightarrow> Query \<Rightarrow> Query" where
  "exclude Es q = q\<lparr>exclude_mask := foldl key_add (exclude_mask q) Es\<rparr>"

fun each_archs :: "ComponentID list \<Rightarrow> ArchetypeKey \<Rightarrow> ArchetypeKey \<Rightarrow>
    (ArchetypeKey \<times> 'v Archetype) list \<Rightarrow> fault + 'v visit list" where
  "each_archs Cs required excl [] = Inr []"
| "each_archs Cs required excl ((k, a) # rest) =
     (if key a AND required \<noteq> required then each_archs Cs required excl rest
      else if key a AND excl \<noteq> 0 then each_archs Cs required excl rest
      else bindF (visit_rows k a Cs [0..<length (entities a)]) (\<lambda>vs.
             bindF (each_archs Cs required excl rest) (\<lambda>vs'. Inr (vs @ vs'))))"

definition each :: "Query \<Rightarrow> 'v World \<Rightarrow> fault + 'v visit list" where
  "each q w = each_archs (q_components q) (foldl key_add 0 (q_components q)) (exclude_mask q) (archetypes w)"

text \<open>
  The query as the specification words it: the rows, in ascending order, of the
  archetypes \<open>A\<close> with \<open>(A.key & I) == I && (A.key & E) == 0\<close>.
\<close>

definition column :: "'v Archetype \<Rightarrow> ComponentID \<Rightarrow> 'v list" where
  "column a c = (case components a c of None \<Rightarrow> [] | Some vec \<Rightarrow> vec)"

definition arch_rows :: "ArchetypeKey \<Rightarrow> 'v Archetype \<Rightarrow> ComponentID list \<Rightarrow> 'v visit list" where
  "arch_rows k a Cs = map (\<lambda>i. (k, i, map (\<lambda>c. column a c ! i) Cs)) [0..<length (entities a)]"

definition matches :: "ArchetypeKey \<Rightarrow> ArchetypeKey \<Rightarrow> 'v Archetype \<Rightarrow> bool" where
  "matches I E a = (key a AND I = I \<and> key a AND E = 0)"

definition query_rows :: "ComponentID list \<Rightarrow> ComponentID list \<Rightarrow> 'v World \<Rightarrow> 'v visit list" where
  "query_rows Cs Es w =
     concat (map (\<lambda>(k, a). arch_rows k a Cs)
               (filter (\<lambda>(k, a). matches (foldl key_add 0 Cs) (foldl key_add 0 Es) a) (archetypes w)))"

section \<open>Invariants of the data model\<close>

text \<open>Row parity of one archetype and of the world.\<close>

definition arch_parity :: "'v Archetype \<Rightarrow> bool" where
  "arch_parity a =
     (\<forall>c<RECS_MAX_COMPONENTS. key_has (key a) c \<longrightarrow>
        (case components a c of None \<Rightarrow> False | Some vec \<Rightarrow> length vec = length (entities a)))"

definition row_parity :: "'v World \<Rightarrow> bool" where
  "row_parity w = (\<forall>(k, a) \<in> set (archetypes w). arch_parity a)"

text \<open>The archetype map has one element per mask, stored under the mask of its key.\<close>

definition keys_ok :: "'v World \<Rightarrow> bool" where
  "keys_ok w =
     (distinct (map fst (archetypes w)) \<and> (\<forall>(k, a) \<in> set (archetypes w). key a = k))"

definition world_inv :: "'v World \<Rightarrow> bool" where
  "world_inv w = (keys_ok w \<and> row_parity w)"

text \<open>Every entity stored in an archetype has a slot in the directory.\<close>

definition ids_in_range :: "'v World \<Rightarrow> bool" where
  "ids_in_range w =
     (\<forall>(k, a) \<in> set (archetypes w). \<forall>x \<in> set (entities a). unat (eid x) < length (entity_locations w))"

text \<open>The directory entry of \<open>e\<close> names a row of an archetype, or no archetype.\<close>

definition location_ok :: "Entity \<Rightarrow> 'v World \<Rightarrow> bool" where
  "location_ok e w =
     (unat (eid e) < length (entity_locations w) \<and>
      (case arch (entity_locations w ! unat (eid e)) of
         None \<Rightarrow> True
       | Some k \<Rightarrow>
           (case map_of (archetypes w) k of
              None \<Rightarrow> False
            | Some a \<Rightarrow> index (entity_locations w ! unat (eid e)) < length (entities a))))"

text \<open>Directory consistency for \<open>e\<close>: the row the directory names holds \<open>e\<close>.\<close>

definition directory_consistent :: "Entity \<Rightarrow> 'v World \<Rightarrow> bool" where
  "directory_consistent e w =
     (unat (eid e) < length (entity_locations w) \<and>
      (case arch (entity_locations w ! unat (eid e)) of
         None \<Rightarrow> False
       | Some k \<Rightarrow>
           (case map_of (archetypes w) k of
              None \<Rightarrow> False
            | Some a \<Rightarrow> index (entity_locations w ! unat (eid e)) < length (entities a) \<and>
                        entities a ! index (entity_locations w ! unat (eid e)) = e)))"

text \<open>The key of the archetype \<open>e\<close> is in; the empty key when it is in none.\<close>

definition key_of :: "Entity \<Rightarrow> 'v World \<Rightarrow> ArchetypeKey" where
  "key_of e w =
     (case arch (entity_locations w ! unat (eid e)) of
        None \<Rightarrow> 0
      | Some k \<Rightarrow> (case map_of (archetypes w) k of None \<Rightarrow> 0 | Some a \<Rightarrow> key a))"

section \<open>Sequences of public operations\<close>

datatype 'v operation =
    Create
  | Destroy Entity
  | Add "ComponentID list" Entity
  | AddValue ComponentID Entity 'v
  | Remove "ComponentID list" Entity
  | SetValue ComponentID Entity 'v
  | CreateBatch nat
  | DestroyBatch "Entity list"
  | OnComponentAdded ComponentID callback
  | OnComponentRemoved ComponentID callback
  | WriteAt cptr 'v

text \<open>
  \<open>SetValue c e v\<close> is the caller's \<^verbatim>\<open>if (auto* p = world.get<C>(e)) *p = v;\<close>.
  \<open>WriteAt p v\<close> is a write of \<open>v\<close> through a reference or base pointer \<open>p\<close> that an
  iteration callback received.
\<close>

definition set_value :: "ComponentID \<Rightarrow> Entity \<Rightarrow> 'v \<Rightarrow> 'v World \<Rightarrow> fault + 'v World" where
  "set_value c e v w =
     bindF (get_unsafe c e w) (\<lambda>r. case r of None \<Rightarrow> Inr w | Some p \<Rightarrow> store p v w)"

fun apply_operation :: "('v::zero) operation \<Rightarrow> 'v World \<Rightarrow> fault + 'v World" where
  "apply_operation Create w = bindF (create_unsafe w) (\<lambda>(e, w'). Inr w')"
| "apply_operation (Destroy e) w = destroy_unsafe e w"
| "apply_operation (Add Cs e) w = bindF (add Cs e w) (\<lambda>(w', calls). Inr w')"
| "apply_operation (AddValue c e v) w = bindF (add_value c e v w) (\<lambda>(w', calls). Inr w')"
| "apply_operation (Remove Cs e) w = bindF (remove Cs e w) (\<lambda>(w', calls). Inr w')"
| "apply_operation (SetValue c e v) w = set_value c e v w"
| "apply_operation (CreateBatch n) w = bindF (create_batch n w) (\<lambda>(es, w'). Inr w')"
| "apply_operation (DestroyBatch es) w = destroy_batch es w"
| "apply_operation (OnComponentAdded c cb) w = Inr (on_component_added c cb w)"
| "apply_operation (OnComponentRemoved c cb) w = Inr (on_component_removed c cb w)"
| "apply_operation (WriteAt p v) w = store p v w"

fun run :: "('v::zero) operation list \<Rightarrow> 'v World \<Rightarrow> fault + 'v World" where
  "run [] w = Inr w"
| "run (x # xs) w = bindF (apply_operation x w) (run xs)"

section \<open>The loops, column by column\<close>

text \<open>What one pass of each loop body does to the column it touches.\<close>

definition pop_col :: "ArchetypeKey \<Rightarrow> nat \<Rightarrow> nat \<Rightarrow> ComponentID \<Rightarrow> 'v ComponentArray \<Rightarrow>
    fault + 'v ComponentArray" where
  "pop_col m i l c col =
     (if \<not> key_has m c then Inr col
      else case col of
             None \<Rightarrow> Inl AssertFail
           | Some vec \<Rightarrow> bindF (move_and_pop vec i l) (\<lambda>vec'. Inr (Some vec')))"

definition default_col :: "ArchetypeKey \<Rightarrow> ComponentID \<Rightarrow> ('v::zero) ComponentArray \<Rightarrow>
    fault + 'v ComponentArray" where
  "default_col m c col =
     (if \<not> key_has m c then Inr col
      else case col of None \<Rightarrow> Inl AssertFail | Some vec \<Rightarrow> Inr (Some (emplace_default vec)))"

definition clone_col :: "ArchetypeKey \<Rightarrow> ComponentID \<Rightarrow> ArchetypeKey \<Rightarrow> 'v ComponentArray \<Rightarrow>
    'v ComponentArray \<Rightarrow> fault + 'v ComponentArray" where
  "clone_col nk c ko ocol ncol =
     Inr (if key_has nk c \<and> ncol = None \<and> key_has ko c then clone_empty ocol else ncol)"

definition copy_col :: "ArchetypeKey \<Rightarrow> nat \<Rightarrow> ComponentID \<Rightarrow> ArchetypeKey \<Rightarrow>
    ('v::zero) ComponentArray \<Rightarrow> 'v ComponentArray \<Rightarrow> fault + 'v ComponentArray" where
  "copy_col nk oi c ko ocol ncol =
     (if \<not> key_has nk c then Inr ncol
      else case ncol of
             None \<Rightarrow> Inl AssertFail
           | Some d \<Rightarrow>
               if key_has ko c
               then (case ocol of
                       None \<Rightarrow> Inl AssertFail
                     | Some s \<Rightarrow> bindF (copy_element d s oi) (\<lambda>d'. Inr (Some d')))
               else Inr (Some (emplace_default d)))"

section \<open>Auxiliary notions for the proofs\<close>

text \<open>The invariant of the archetype map on its own, and with one mask exempt from parity.\<close>

definition archs_ok :: "(ArchetypeKey \<times> 'v Archetype) list \<Rightarrow> bool" where
  "archs_ok archs =
     (distinct (map fst archs) \<and> (\<forall>k a. map_of archs k = Some a \<longrightarrow> key a = k \<and> arch_parity a))"

definition archs_ok_except :: "ArchetypeKey \<Rightarrow> (ArchetypeKey \<times> 'v Archetype) list \<Rightarrow> bool" where
  "archs_ok_except nk archs =
     (distinct (map fst archs) \<and>
      (\<forall>k a. map_of archs k = Some a \<longrightarrow> key a = k \<and> (k \<noteq> nk \<longrightarrow> arch_parity a)))"

definition pre_parity :: "nat \<Rightarrow> ArchetypeKey \<Rightarrow> (ComponentID \<Rightarrow> 'v ComponentArray) \<Rightarrow> bool" where
  "pre_parity n k comps =
     (\<forall>c<RECS_MAX_COMPONENTS. key_has k c \<longrightarrow>
        (case comps c of None \<Rightarrow> n = 0 | Some vec \<Rightarrow> length vec = n))"

text \<open>The new key and the new archetype of \<open>migrate\<close> after the entity was pushed.\<close>

definition new_key_of :: "bool \<Rightarrow> ArchetypeKey \<Rightarrow> ComponentID list \<Rightarrow> ArchetypeKey" where
  "new_key_of adding k0 Cs = (if adding then foldl key_add k0 Cs else foldl key_remove k0 Cs)"

definition with_entity :: "bool \<Rightarrow> 'v Archetype \<Rightarrow> Entity \<Rightarrow> ComponentID list \<Rightarrow> 'v Archetype" where
  "with_entity adding na e Cs =
     (if adding then foldl ensure_array (na\<lparr>entities := entities na @ [e]\<rparr>) Cs
      else na\<lparr>entities := entities na @ [e]\<rparr>)"

text \<open>Every entity stored in an archetype of the map has an id below \<open>n\<close>.\<close>

definition archs_in_range :: "nat \<Rightarrow> (ArchetypeKey \<times> 'v Archetype) list \<Rightarrow> bool" where
  "archs_in_range n archs =
     (\<forall>k a. map_of archs k = Some a \<longrightarrow> (\<forall>x\<in>set (entities a). unat (eid x) < n))"

text \<open>The value in the row of \<open>e\<close> of the column of component \<open>c\<close>.\<close>

definition cell :: "ComponentID \<Rightarrow> Entity \<Rightarrow> ('v::zero) World \<Rightarrow> 'v" where
  "cell c e w =
     (case arch (entity_locations w ! unat (eid e)) of
        None \<Rightarrow> 0
      | Some k \<Rightarrow> (case map_of (archetypes w) k of
           None \<Rightarrow> 0
         | Some a \<Rightarrow> column a c ! index (entity_locations w ! unat (eid e))))"

text \<open>The calls that \<open>migrate\<close> makes at its end, for a world with the given hook table.\<close>

definition hook_calls :: "bool \<Rightarrow> ComponentID list \<Rightarrow> Entity \<Rightarrow> 'v World \<Rightarrow> call list" where
  "hook_calls adding Cs e w =
     (if adding then concat (map (\<lambda>c. fire_component_added c e w) Cs)
      else concat (map (\<lambda>c. fire_component_removed c e w) Cs))"

text \<open>A world with three entities in two archetypes, for instances of the theorems.\<close>

definition sample_world :: "int World" where
  "sample_world =
     \<lparr>generations = [0, 0, 0], free_ids = [],
      archetypes =
        [(1, \<lparr>key = 1, entities = [\<lparr>eid = 0, generation = 0\<rparr>], components = (\<lambda>c. None)(0 \<mapsto> [5])\<rparr>),
         (3, \<lparr>key = 3, entities = [\<lparr>eid = 1, generation = 0\<rparr>, \<lparr>eid = 2, generation = 0\<rparr>],
              components = (\<lambda>c. None)(0 \<mapsto> [7, 8], 1 \<mapsto> [9, 10])\<rparr>)],
      entity_locations = [\<lparr>arch = Some 1, index = 0\<rparr>, \<lparr>arch = Some 3, index = 0\<rparr>, \<lparr>arch = Some 3, index = 1\<rparr>],
      event_handlers = (\<lambda>c. None)\<rparr>"

section \<open>Archetype keys\<close>

lemma key_has_bit: "key_has m c \<longleftrightarrow> bit m c"
  by (simp add: key_has_def bit_iff_and_push_bit_not_eq_0)

lemma key_has_less: "key_has m c \<Longrightarrow> c < 64"
  unfolding key_has_bit by (drule bit_imp_le_length) simp

lemma key_has_0 [simp]: "\<not> key_has 0 c"
  by (simp add: key_has_def)

lemma key_has_add: "key_has (key_add m c) c' \<longleftrightarrow> key_has m c' \<or> (c' = c \<and> c < 64)"
  by (auto simp add: key_has_bit key_add_def bit_or_iff bit_exp_iff possible_bit_word)

lemma key_has_remove: "key_has (key_remove m c) c' \<longleftrightarrow> key_has m c' \<and> c' \<noteq> c"
  by (auto simp add: key_has_bit key_remove_def bit_and_iff bit_not_iff bit_exp_iff possible_bit_word dest: bit_imp_le_length)

lemma key_has_foldl_add:
  "key_has (foldl key_add m Cs) c \<longleftrightarrow> key_has m c \<or> (c \<in> set Cs \<and> c < 64)"
  by (induction Cs arbitrary: m) (auto simp: key_has_add)

lemma key_has_foldl_remove:
  "key_has (foldl key_remove m Cs) c \<longleftrightarrow> key_has m c \<and> c \<notin> set Cs"
  by (induction Cs arbitrary: m) (auto simp: key_has_remove)

lemma for_ids_append:
  "for_ids (xs @ ys) body s = bindF (for_ids xs body s) (for_ids ys body)"
  by (induction xs arbitrary: s) (auto simp: bindF_def split: sum.splits)

lemma for_ids_snoc:
  "for_ids (xs @ [n]) body s = bindF (for_ids xs body s) (body n)"
  by (simp add: for_ids_append bindF_def split: sum.splits)

section \<open>Loops\<close>

lemma for_ids_pointwise:
  assumes body: "\<And>c s. body c s = bindF (g c (s c)) (\<lambda>x. Inr (s(c := x)))"
  shows "for_ids [0..<n] body s = Inr s' \<longleftrightarrow>
           (\<forall>c. if c < n then g c (s c) = Inr (s' c) else s' c = s c)"
proof (induction n arbitrary: s')
  case 0
  show ?case by (auto simp: fun_eq_iff)
next
  case (Suc n)
  show ?case
  proof
    assume "for_ids [0..<Suc n] body s = Inr s'"
    then obtain t where t: "for_ids [0..<n] body s = Inr t" and b: "body n t = Inr s'"
      by (auto simp: for_ids_snoc bindF_def split: sum.splits)
    from t Suc.IH have tt: "\<forall>c. if c < n then g c (s c) = Inr (t c) else t c = s c" by simp
    from b obtain x where x: "g n (t n) = Inr x" and s': "s' = t(n := x)"
      by (auto simp: body bindF_def split: sum.splits)
    show "\<forall>c. if c < Suc n then g c (s c) = Inr (s' c) else s' c = s c"
      using tt x s' by (auto simp: less_Suc_eq)
  next
    assume a: "\<forall>c. if c < Suc n then g c (s c) = Inr (s' c) else s' c = s c"
    define t where "t = s'(n := s n)"
    have "\<forall>c. if c < n then g c (s c) = Inr (t c) else t c = s c"
      using a by (auto simp: t_def less_Suc_eq)
    then have t: "for_ids [0..<n] body s = Inr t" using Suc.IH by simp
    have "g n (t n) = Inr (s' n)" using a by (auto simp: t_def)
    moreover have "t(n := s' n) = s'" by (auto simp: t_def)
    ultimately have "body n t = Inr s'" by (simp add: body bindF_def)
    with t show "for_ids [0..<Suc n] body s = Inr s'"
      by (simp add: for_ids_snoc bindF_def)
  qed
qed

lemma pop_step_pointwise: "pop_step m i l c s = bindF (pop_col m i l c (s c)) (\<lambda>x. Inr (s(c := x)))"
  by (auto simp: pop_step_def pop_col_def bindF_def split: option.splits sum.splits)

lemma default_step_pointwise: "default_step m c s = bindF (default_col m c (s c)) (\<lambda>x. Inr (s(c := x)))"
  by (auto simp: default_step_def default_col_def bindF_def split: option.splits sum.splits)

lemma update_col_triv:
  "map_of t nk = Some n' \<Longrightarrow> components n' c = x \<Longrightarrow>
   AList.update nk (n'\<lparr>components := (components n')(c := x)\<rparr>) t = t"
proof -
  assume a: "map_of t nk = Some n'" "components n' c = x"
  then have "(components n')(c := x) = components n'" by auto
  then show ?thesis using a by (simp add: update_triv)
qed

lemma for_ids_store:
  fixes g :: "ComponentID \<Rightarrow> ArchetypeKey \<Rightarrow> 'v ComponentArray \<Rightarrow> 'v ComponentArray \<Rightarrow> fault + 'v ComponentArray"
  assumes body: "\<And>c t n' o'. map_of t nk = Some n' \<Longrightarrow> map_of t ok = Some o' \<Longrightarrow>
      body c t = bindF (g c (key o') (components o' c) (components n' c))
                   (\<lambda>x. Inr (AList.update nk (n'\<lparr>components := (components n')(c := x)\<rparr>) t))"
    and na: "map_of archs nk = Some na" and oa: "map_of archs ok = Some oa"
  shows "for_ids [0..<n] body archs = Inr archs' \<longleftrightarrow>
     (\<exists>comps'. (\<forall>c. if c < n then g c (key oa) (components oa c) (components na c) = Inr (comps' c)
                     else comps' c = components na c)
               \<and> archs' = AList.update nk (na\<lparr>components := comps'\<rparr>) archs)"
proof (induction n arbitrary: archs')
  case 0
  have *: "(\<forall>c. comps' c = components na c) \<longleftrightarrow> comps' = components na" for comps'
    by (auto simp: fun_eq_iff)
  have "AList.update nk na archs = archs" using na by (simp add: update_triv)
  then show ?case by (auto simp: *)
next
  case (Suc n)
  let ?G = "\<lambda>c. g c (key oa) (components oa c) (components na c)"
  have step: "body n (AList.update nk (na\<lparr>components := F\<rparr>) archs) =
      bindF (?G n) (\<lambda>x. Inr (AList.update nk (na\<lparr>components := F(n := x)\<rparr>) archs))"
    if F: "F n = components na n" for F
  proof -
    let ?t = "AList.update nk (na\<lparr>components := F\<rparr>) archs"
    have 1: "map_of ?t nk = Some (na\<lparr>components := F\<rparr>)" by (simp add: update_conv')
    show ?thesis
    proof (cases "ok = nk")
      case True
      then have "oa = na" using na oa by simp
      with True F show ?thesis
        using body [OF 1, of "na\<lparr>components := F\<rparr>" n] 1 by simp
    next
      case False
      then have 2: "map_of ?t ok = Some oa" using oa by (simp add: update_conv')
      show ?thesis using body [OF 1 2, of n] F by simp
    qed
  qed
  show ?case
  proof
    assume "for_ids [0..<Suc n] body archs = Inr archs'"
    then obtain t where t: "for_ids [0..<n] body archs = Inr t" and b: "body n t = Inr archs'"
      by (auto simp: for_ids_snoc bindF_def split: sum.splits)
    from t Suc.IH obtain F where F: "\<forall>c. if c < n then ?G c = Inr (F c) else F c = components na c"
      and tF: "t = AList.update nk (na\<lparr>components := F\<rparr>) archs" by blast
    from F have Fn: "F n = components na n" by auto
    from b obtain x where x: "?G n = Inr x" and a': "archs' = AList.update nk (na\<lparr>components := F(n := x)\<rparr>) archs"
      unfolding tF step [of F, OF Fn] by (auto simp: bindF_def split: sum.splits)
    have "\<forall>c. if c < Suc n then ?G c = Inr ((F(n := x)) c) else (F(n := x)) c = components na c"
      using F x by (auto simp: less_Suc_eq)
    with a' show "\<exists>comps'. (\<forall>c. if c < Suc n then ?G c = Inr (comps' c) else comps' c = components na c)
               \<and> archs' = AList.update nk (na\<lparr>components := comps'\<rparr>) archs" by blast
  next
    assume "\<exists>comps'. (\<forall>c. if c < Suc n then ?G c = Inr (comps' c) else comps' c = components na c)
               \<and> archs' = AList.update nk (na\<lparr>components := comps'\<rparr>) archs"
    then obtain H where H: "\<forall>c. if c < Suc n then ?G c = Inr (H c) else H c = components na c"
      and a': "archs' = AList.update nk (na\<lparr>components := H\<rparr>) archs" by blast
    define F where "F = H(n := components na n)"
    have "\<forall>c. if c < n then ?G c = Inr (F c) else F c = components na c"
      using H by (auto simp: F_def less_Suc_eq)
    then have t: "for_ids [0..<n] body archs = Inr (AList.update nk (na\<lparr>components := F\<rparr>) archs)"
      using Suc.IH by blast
    have Fn: "F n = components na n" by (simp add: F_def)
    have Gn: "?G n = Inr (H n)" using H by auto
    have "F(n := H n) = H" by (auto simp: F_def)
    then show "for_ids [0..<Suc n] body archs = Inr archs'"
      using t step [of F, OF Fn] Gn a' by (simp add: for_ids_snoc bindF_def)
  qed
qed

lemma clone_step_store:
  "map_of t nk = Some n' \<Longrightarrow> map_of t ok = Some o' \<Longrightarrow>
   clone_step ok nk c t = bindF (clone_col nk c (key o') (components o' c) (components n' c))
       (\<lambda>x. Inr (AList.update nk (n'\<lparr>components := (components n')(c := x)\<rparr>) t))"
  by (auto simp: clone_step_def clone_col_def bindF_def arch_at_def update_col_triv update_triv)

lemma copy_step_store:
  "map_of t nk = Some n' \<Longrightarrow> map_of t ok = Some o' \<Longrightarrow>
   copy_step ok nk oi c t = bindF (copy_col nk oi c (key o') (components o' c) (components n' c))
       (\<lambda>x. Inr (AList.update nk (n'\<lparr>components := (components n')(c := x)\<rparr>) t))"
  by (auto simp: copy_step_def copy_col_def bindF_def arch_at_def update_col_triv update_triv split: option.splits sum.splits)

lemma clone_loop:
  assumes "map_of archs nk = Some na" and "map_of archs ok = Some oa"
  shows "for_ids [0..<n] (clone_step ok nk) archs = Inr archs' \<longleftrightarrow>
     (\<exists>comps'. (\<forall>c. if c < n then clone_col nk c (key oa) (components oa c) (components na c) = Inr (comps' c)
                     else comps' c = components na c)
               \<and> archs' = AList.update nk (na\<lparr>components := comps'\<rparr>) archs)"
  by (rule for_ids_store [where g = "clone_col nk" and ok = ok]) (simp_all add: clone_step_store assms)

lemma copy_loop:
  assumes "map_of archs nk = Some na" and "map_of archs ok = Some oa"
  shows "for_ids [0..<n] (copy_step ok nk oi) archs = Inr archs' \<longleftrightarrow>
     (\<exists>comps'. (\<forall>c. if c < n then copy_col nk oi c (key oa) (components oa c) (components na c) = Inr (comps' c)
                     else comps' c = components na c)
               \<and> archs' = AList.update nk (na\<lparr>components := comps'\<rparr>) archs)"
  by (rule for_ids_store [where g = "copy_col nk oi" and ok = ok]) (simp_all add: copy_step_store assms)

lemma pop_loop:
  "for_ids [0..<n] (pop_step m i l) s = Inr s' \<longleftrightarrow>
     (\<forall>c. if c < n then pop_col m i l c (s c) = Inr (s' c) else s' c = s c)"
  by (rule for_ids_pointwise) (rule pop_step_pointwise)

lemma default_loop:
  "for_ids [0..<n] (default_step m) s = Inr s' \<longleftrightarrow>
     (\<forall>c. if c < n then default_col m c (s c) = Inr (s' c) else s' c = s c)"
  by (rule for_ids_pointwise) (rule default_step_pointwise)

lemma default_loop_eq:
  assumes "\<forall>c<n. key_has m c \<longrightarrow> s c \<noteq> None"
  shows "for_ids [0..<n] (default_step m) s =
     Inr (\<lambda>c. if c < n \<and> key_has m c then Some (emplace_default (the (s c))) else s c)"
  unfolding default_loop using assms by (auto simp: default_col_def)

lemma pop_loop_eq:
  assumes "\<forall>c<n. key_has m c \<longrightarrow> (\<exists>vec. s c = Some vec \<and> i < length vec \<and> l < length vec)"
  shows "for_ids [0..<n] (pop_step m i l) s =
     Inr (\<lambda>c. if c < n \<and> key_has m c then Some (butlast ((the (s c))[i := the (s c) ! l])) else s c)"
  unfolding pop_loop using assms by (auto simp: pop_col_def move_and_pop_def bindF_def)

lemma clone_loop_eq:
  assumes "map_of archs nk = Some na" and "map_of archs ok = Some oa"
  shows "for_ids [0..<n] (clone_step ok nk) archs =
     Inr (AList.update nk (na\<lparr>components := \<lambda>c. if c < n \<and> key_has nk c \<and> components na c = None \<and> key_has (key oa) c
              then clone_empty (components oa c) else components na c\<rparr>) archs)"
  unfolding clone_loop [OF assms]
  by (rule exI [where x = "\<lambda>c. if c < n \<and> key_has nk c \<and> components na c = None \<and> key_has (key oa) c
              then clone_empty (components oa c) else components na c"]) (auto simp: clone_col_def)

lemma copy_loop_eq:
  assumes "map_of archs nk = Some na" and "map_of archs ok = Some oa"
    and "\<forall>c<n. key_has nk c \<longrightarrow> components na c \<noteq> None \<and>
            (key_has (key oa) c \<longrightarrow> (\<exists>s. components oa c = Some s \<and> oi < length s))"
  shows "for_ids [0..<n] (copy_step ok nk oi) archs =
     Inr (AList.update nk (na\<lparr>components := \<lambda>c. if c < n \<and> key_has nk c
              then Some (the (components na c) @ [if key_has (key oa) c then the (components oa c) ! oi else 0])
              else components na c\<rparr>) archs)"
  unfolding copy_loop [OF assms(1,2)]
  by (rule exI [where x = "\<lambda>c. if c < n \<and> key_has nk c
              then Some (the (components na c) @ [if key_has (key oa) c then the (components oa c) ! oi else 0])
              else components na c"])
     (use assms(3) in \<open>auto simp: copy_col_def copy_element_def emplace_default_def bindF_def\<close>)

section \<open>Small keys\<close>

lemma key_has_1 [simp]: "key_has 1 c \<longleftrightarrow> c = 0"
  by (simp add: key_has_bit bit_1_iff)

lemma key_has_3 [simp]: "key_has 3 c \<longleftrightarrow> c = 0 \<or> c = 1"
proof -
  have "(3 :: 64 word) = key_add (key_add 0 0) 1" by (simp add: key_add_def)
  then have "key_has 3 c \<longleftrightarrow> key_has (key_add (key_add 0 0) 1) c" by simp
  also have "\<dots> \<longleftrightarrow> c = 0 \<or> c = 1" unfolding key_has_add by auto
  finally show ?thesis .
qed

section \<open>Reading an entity that is in no archetype\<close>

text \<open>
  Claim C10. An alive entity whose directory entry has no archetype (it was created and
  no component was ever added to it) is read without a fault: \<^verbatim>\<open>get<C>\<close> returns the
  null pointer and \<^verbatim>\<open>has<C>\<close> returns false, for every component \<open>c\<close>.
\<close>

theorem get_has_without_archetype:
  assumes "alive_unsafe e w" and "unat (eid e) < length (entity_locations w)"
    and "arch (entity_locations w ! unat (eid e)) = None"
  shows "get_unsafe c e w = Inr None \<and> has c e w = Inr False"
  using assms by (simp add: get_unsafe_def has_def)

lemma create_empty:
  "create_unsafe (empty_world :: int World) =
     Inr (\<lparr>eid = 0, generation = 0\<rparr>, \<lparr>generations = [0], free_ids = [], archetypes = [],
       entity_locations = [\<lparr>arch = None, index = 0\<rparr>], event_handlers = (\<lambda>c. None)\<rparr>)"
  by (simp add: create_unsafe_def empty_world_def resize_def)

theorem get_has_without_archetype_witness:
  "create_unsafe (empty_world :: int World) =
     Inr (\<lparr>eid = 0, generation = 0\<rparr>, \<lparr>generations = [0], free_ids = [], archetypes = [],
       entity_locations = [\<lparr>arch = None, index = 0\<rparr>], event_handlers = (\<lambda>c. None)\<rparr>)
   \<and> alive_unsafe \<lparr>eid = 0, generation = 0\<rparr>
        (\<lparr>generations = [0], free_ids = [], archetypes = [],
          entity_locations = [\<lparr>arch = None, index = 0\<rparr>], event_handlers = (\<lambda>c. None)\<rparr> :: int World)
   \<and> get_unsafe 3 \<lparr>eid = 0, generation = 0\<rparr>
        (\<lparr>generations = [0], free_ids = [], archetypes = [],
          entity_locations = [\<lparr>arch = None, index = 0\<rparr>], event_handlers = (\<lambda>c. None)\<rparr> :: int World) = Inr None
   \<and> has 3 \<lparr>eid = 0, generation = 0\<rparr>
        (\<lparr>generations = [0], free_ids = [], archetypes = [],
          entity_locations = [\<lparr>arch = None, index = 0\<rparr>], event_handlers = (\<lambda>c. None)\<rparr> :: int World) = Inr False"
proof -
  let ?w = "\<lparr>generations = [0], free_ids = [], archetypes = [],
          entity_locations = [\<lparr>arch = None, index = 0\<rparr>], event_handlers = (\<lambda>c. None)\<rparr> :: int World"
  let ?e = "\<lparr>eid = 0, generation = 0\<rparr>"
  have a: "alive_unsafe ?e ?w" by (simp add: alive_unsafe_def)
  have b: "unat (eid ?e) < length (entity_locations ?w)" by simp
  have c: "arch (entity_locations ?w ! unat (eid ?e)) = None" by simp
  show ?thesis using get_has_without_archetype [OF a b c, of 3] a create_empty by simp
qed

section \<open>Runs from the empty world\<close>

text \<open>
  The steps of the runs below, each evaluated on the concrete world it starts from:
  one entity with id 0, component 0, and an int as the component value.
\<close>

lemmas migrate_eval = add_def remove_def migrate_def Let_def bindF_def arch_at_def get_or_create_archetype_def
  key_add_def key_remove_def ensure_array_def clone_loop_eq copy_loop_eq pop_loop_eq default_loop_eq remove_from_archetype_def
  fire_component_added_def fire_component_removed_def emplace_default_def RECS_MAX_COMPONENTS_def

lemma create_any_handlers:
  "create_unsafe \<lparr>generations = [], free_ids = [], archetypes = ([] :: (ArchetypeKey \<times> int Archetype) list),
       entity_locations = [], event_handlers = h\<rparr> =
     Inr (\<lparr>eid = 0, generation = 0\<rparr>, \<lparr>generations = [0], free_ids = [], archetypes = [],
       entity_locations = [\<lparr>arch = None, index = 0\<rparr>], event_handlers = h\<rparr>)"
  by (simp add: create_unsafe_def resize_def)

lemma add0_fresh:
  "h 0 = None \<Longrightarrow> add [0] \<lparr>eid = 0, generation = 0\<rparr> \<lparr>generations = [0], free_ids = [], archetypes = [],
       entity_locations = [\<lparr>arch = None, index = 0\<rparr>], event_handlers = h\<rparr>
   = Inr (\<lparr>generations = [0], free_ids = [],
           archetypes = [(1, \<lparr>key = 1, entities = [\<lparr>eid = 0, generation = 0\<rparr>], components = (\<lambda>c. None)(0 \<mapsto> [0::int])\<rparr>)],
       entity_locations = [\<lparr>arch = Some 1, index = 0\<rparr>], event_handlers = h\<rparr>, [])"
  apply (simp add: migrate_eval)
  apply (auto simp: fun_eq_iff emplace_default_def)
  done

lemma add0_again:
  "h 0 = None \<Longrightarrow> add [0] \<lparr>eid = 0, generation = 0\<rparr> \<lparr>generations = [0], free_ids = [],
           archetypes = [(1, \<lparr>key = 1, entities = [\<lparr>eid = 0, generation = 0\<rparr>], components = (\<lambda>c. None)(0 \<mapsto> [0::int])\<rparr>)],
       entity_locations = [\<lparr>arch = Some 1, index = 0\<rparr>], event_handlers = h\<rparr>
   = Inr (\<lparr>generations = [0], free_ids = [],
           archetypes = [(1, \<lparr>key = 1, entities = [\<lparr>eid = 0, generation = 0\<rparr>], components = (\<lambda>c. None)(0 \<mapsto> [0::int])\<rparr>)],
       entity_locations = [\<lparr>arch = Some 1, index = 1\<rparr>], event_handlers = h\<rparr>, [])"
  apply (simp add: migrate_eval)
  apply (auto simp: fun_eq_iff)
  done

text \<open>
  The first iteration of a loop over the component ids, taken on its own: the later
  iterations are not reached when it faults.
\<close>

lemma for_ids_first:
  "for_ids [0..<64] body s = bindF (body 0 s) (for_ids [Suc 0..<64] body)"
  by (simp add: upt_rec [of 0] bindF_def)

lemma add1_after_add_twice:
  "add [1] \<lparr>eid = 0, generation = 0\<rparr> \<lparr>generations = [0], free_ids = [],
           archetypes = [(1, \<lparr>key = 1, entities = [\<lparr>eid = 0, generation = 0\<rparr>], components = (\<lambda>c. None)(0 \<mapsto> [0::int])\<rparr>)],
       entity_locations = [\<lparr>arch = Some 1, index = 1\<rparr>], event_handlers = h\<rparr>
   = Inl OutOfRange"
  apply (simp add: migrate_eval)
  apply (simp add: for_ids_first copy_step_def arch_at_def bindF_def copy_element_def clone_empty_def)
  done

lemma remove1_absent:
  "h 1 = Some \<lparr>on_add = [], on_remove = [7]\<rparr> \<Longrightarrow>
   remove [1] \<lparr>eid = 0, generation = 0\<rparr> \<lparr>generations = [0], free_ids = [],
           archetypes = [(1, \<lparr>key = 1, entities = [\<lparr>eid = 0, generation = 0\<rparr>], components = (\<lambda>c. None)(0 \<mapsto> [0::int])\<rparr>)],
       entity_locations = [\<lparr>arch = Some 1, index = 0\<rparr>], event_handlers = h\<rparr>
   = Inr (\<lparr>generations = [0], free_ids = [],
           archetypes = [(1, \<lparr>key = 1, entities = [\<lparr>eid = 0, generation = 0\<rparr>], components = (\<lambda>c. None)(0 \<mapsto> [0::int])\<rparr>)],
       entity_locations = [\<lparr>arch = Some 1, index = 1\<rparr>], event_handlers = h\<rparr>, [(7, \<lparr>eid = 0, generation = 0\<rparr>)])"
  apply (simp add: migrate_eval)
  apply (auto simp: fun_eq_iff)
  done

lemma destroy_added:
  "destroy_unsafe \<lparr>eid = 0, generation = 0\<rparr> \<lparr>generations = [0], free_ids = [],
           archetypes = [(1, \<lparr>key = 1, entities = [\<lparr>eid = 0, generation = 0\<rparr>], components = (\<lambda>c. None)(0 \<mapsto> [0::int])\<rparr>)],
       entity_locations = [\<lparr>arch = Some 1, index = 0\<rparr>], event_handlers = h\<rparr>
   = Inr \<lparr>generations = [1], free_ids = [0],
           archetypes = [(1, \<lparr>key = 1, entities = [], components = (\<lambda>c. None)(0 \<mapsto> [])\<rparr>)],
       entity_locations = [\<lparr>arch = None, index = 0\<rparr>], event_handlers = h\<rparr>"
  apply (simp add: destroy_unsafe_def alive_unsafe_def migrate_eval)
  apply (auto simp: fun_eq_iff)
  done

lemma add0_stale:
  "h 0 = None \<Longrightarrow> add [0] \<lparr>eid = 0, generation = 0\<rparr> \<lparr>generations = [1], free_ids = [0],
           archetypes = [(1, \<lparr>key = 1, entities = [], components = (\<lambda>c. None)(0 \<mapsto> [])\<rparr>)],
       entity_locations = [\<lparr>arch = None, index = 0\<rparr>], event_handlers = h\<rparr>
   = Inr (\<lparr>generations = [1], free_ids = [0],
           archetypes = [(1, \<lparr>key = 1, entities = [\<lparr>eid = 0, generation = 0\<rparr>], components = (\<lambda>c. None)(0 \<mapsto> [0::int])\<rparr>)],
       entity_locations = [\<lparr>arch = Some 1, index = 0\<rparr>], event_handlers = h\<rparr>, [])"
  apply (simp add: migrate_eval)
  apply (auto simp: fun_eq_iff emplace_default_def)
  done

text \<open>
  When \<^verbatim>\<open>destroy(e)\<close> of an alive entity returns, the next \<^verbatim>\<open>create()\<close> returns the id of \<open>e\<close>
  with the generation after that of \<open>e\<close>; the old handle is dead and the new one alive.
\<close>

lemma remove_from_archetype_directory:
  assumes "remove_from_archetype e k i w = Inr w'"
  shows "generations w' = generations w \<and> free_ids w' = free_ids w \<and>
     unat (eid e) < length (entity_locations w')"
  using assms
  by (auto simp: remove_from_archetype_def bindF_def Let_def arch_at_def
        split: option.splits if_splits sum.splits)

lemma destroy_then_create_recycles:
  assumes al: "alive_unsafe e w" and d: "destroy_unsafe e w = Inr w1"
  shows "\<exists>e' w2. create_unsafe w1 = Inr (e', w2) \<and> eid e' = eid e \<and> generation e' \<noteq> generation e \<and>
     \<not> alive_unsafe e w2 \<and> alive_unsafe e' w2"
proof -
  from al d obtain k i w0 where rm: "remove_from_archetype e k i w = Inr w0"
    and w1: "w1 = w0\<lparr>generations := (generations w0)[unat (eid e) := generations w0 ! unat (eid e) + 1],
                     free_ids := free_ids w0 @ [eid e]\<rparr>"
    by (auto simp: destroy_unsafe_def Let_def bindF_def split: if_splits option.splits sum.splits)
  from remove_from_archetype_directory [OF rm] have g0: "generations w0 = generations w"
    and l0: "unat (eid e) < length (entity_locations w0)" by simp_all
  from al have r: "unat (eid e) < length (generations w)" and g: "generations w ! unat (eid e) = generation e"
    by (simp_all add: alive_unsafe_def)
  define e' where "e' = \<lparr>eid = eid e, generation = generation e + 1\<rparr>"
  define w2 where "w2 = w0\<lparr>generations := (generations w)[unat (eid e) := generation e + 1],
      free_ids := free_ids w0,
      entity_locations := (entity_locations w0)[unat (eid e) := \<lparr>arch = None, index = 0\<rparr>]\<rparr>"
  have "create_unsafe w1 = Inr (e', w2)"
    using r l0 by (simp add: create_unsafe_def w1 g0 g e'_def w2_def)
  moreover have "generation e + 1 \<noteq> generation e" by simp
  ultimately show ?thesis using r by (auto simp: e'_def w2_def alive_unsafe_def)
qed

text \<open>
  Claim C5 says that, for every alive entity \<open>e\<close>, \<^verbatim>\<open>destroy(e)\<close> followed by \<^verbatim>\<open>create()\<close>
  returns the id of \<open>e\<close> with another generation. The run: \<^verbatim>\<open>create()\<close>, then \<^verbatim>\<open>destroy\<close>
  of the entity just created. Its location has no archetype, and \<open>destroy_unsafe\<close>
  passes \<^verbatim>\<open>*loc.arch\<close> to \<open>remove_from_archetype\<close> without the null check that
  \<open>get_unsafe\<close> and \<open>has\<close> make: the run ends in a null dereference.
\<close>

theorem destroy_without_archetype_faults:
  "bindF (create_unsafe (empty_world :: int World)) (\<lambda>(e, w). destroy_unsafe e w) = Inl NullDeref"
  by (simp add: create_empty bindF_def destroy_unsafe_def alive_unsafe_def)

text \<open>
  Claim C3 says that directory consistency holds after every public operation, also
  after \<^verbatim>\<open>add<C>(e)\<close> when \<open>e\<close> already has \<open>C\<close>. The run: \<^verbatim>\<open>create()\<close>, \<^verbatim>\<open>add<C0>(e)\<close>,
  \<^verbatim>\<open>add<C0>(e)\<close>. After the first add the directory is consistent for \<open>e\<close>; after the
  second the entity is alive, its archetype has the single row 0, and the directory
  names row 1.
\<close>

theorem add_twice_breaks_directory:
  "bindF (create_unsafe (empty_world :: int World)) (\<lambda>(e, w1).
     bindF (add [0] e w1) (\<lambda>(w2, calls2).
       bindF (add [0] e w2) (\<lambda>(w3, calls3).
         Inr (e, alive_unsafe e w3, directory_consistent e w2, directory_consistent e w3,
              entity_locations w3, map (\<lambda>(k, a). (k, entities a)) (archetypes w3)))))
   = Inr (\<lparr>eid = 0, generation = 0\<rparr>, True, True, False,
          [\<lparr>arch = Some 1, index = 1\<rparr>], [(1, [\<lparr>eid = 0, generation = 0\<rparr>])])"
  by (simp add: create_empty bindF_def add0_fresh add0_again alive_unsafe_def directory_consistent_def)

text \<open>
  Claim C7 says that, for every alive entity \<open>e\<close> and every component set \<open>S\<close> not held by
  \<open>e\<close>, \<^verbatim>\<open>add<S>(e)\<close> followed by \<^verbatim>\<open>remove<S>(e)\<close> leaves the values of the other components
  of \<open>e\<close> as they were. The run: \<^verbatim>\<open>create()\<close>, \<^verbatim>\<open>add<C0>(e)\<close>, \<^verbatim>\<open>add<C0>(e)\<close>, and then
  \<^verbatim>\<open>add<C1>(e)\<close>. After the second add the entity is alive, holds component 0 and not
  component 1, and its directory entry names row 1 of an archetype whose only row is
  row 0. \<^verbatim>\<open>add<C1>(e)\<close> then copies the value of component 0 from row 1 of a column of
  length 1: the add does not return, so there is no state after it to remove from.
  Reading component 0 of \<open>e\<close> before the add indexes the same row.
\<close>

theorem add_after_same_archetype_add_faults:
  "bindF (create_unsafe (empty_world :: int World)) (\<lambda>(e, w1).
     bindF (add [0] e w1) (\<lambda>(w2, calls2).
       bindF (add [0] e w2) (\<lambda>(w3, calls3).
         Inr (e, alive_unsafe e w3, has 0 e w3, has 1 e w3, entity_locations w3,
              map (\<lambda>(k, a). (k, entities a, components a 0)) (archetypes w3),
              get_value 0 e w3, add [1] e w3))))
   = Inr (\<lparr>eid = 0, generation = 0\<rparr>, True, Inr True, Inr False, [\<lparr>arch = Some 1, index = 1\<rparr>],
          [(1, [\<lparr>eid = 0, generation = 0\<rparr>], Some [0])], Inl OutOfRange, Inl OutOfRange)"
  apply (simp add: create_empty bindF_def add0_fresh add0_again alive_unsafe_def has_def arch_at_def
      get_value_def get_unsafe_def get_array_def)
  apply (simp only: add1_after_add_twice [simplified])
  done

text \<open>
  Claim C2 says that \<^verbatim>\<open>remove<C>(e)\<close> on an alive entity without \<open>C\<close> leaves the world
  unchanged and fires no \<^verbatim>\<open>on_remove\<close> hook. The run: register callback 7 for the removal
  of component 1, \<^verbatim>\<open>create()\<close>, \<^verbatim>\<open>add<C0>(e)\<close>, \<^verbatim>\<open>remove<C1>(e)\<close>. The entity is alive and
  does not have component 1; the remove changes its directory entry from row 0 to row 1
  and calls callback 7 with \<open>e\<close>.
\<close>

theorem remove_absent_changes_state_and_fires:
  "bindF (create_unsafe (on_component_removed 1 7 (empty_world :: int World))) (\<lambda>(e, w1).
     bindF (add [0] e w1) (\<lambda>(w2, calls2).
       bindF (remove [1] e w2) (\<lambda>(w3, calls3).
         Inr (e, alive_unsafe e w2, has 1 e w2, entity_locations w2, entity_locations w3, w3 = w2, calls3))))
   = Inr (\<lparr>eid = 0, generation = 0\<rparr>, True, Inr False,
          [\<lparr>arch = Some 1, index = 0\<rparr>], [\<lparr>arch = Some 1, index = 1\<rparr>], False,
          [(7, \<lparr>eid = 0, generation = 0\<rparr>)])"
proof -
  let ?h = "(\<lambda>c. None)((1::nat) \<mapsto> \<lparr>on_add = [], on_remove = [7::nat]\<rparr>)"
  have w0: "on_component_removed 1 7 (empty_world :: int World) =
      \<lparr>generations = [], free_ids = [], archetypes = [], entity_locations = [], event_handlers = ?h\<rparr>"
    by (simp add: on_component_removed_def empty_world_def)
  have h0: "?h 0 = None" and h1: "?h 1 = Some \<lparr>on_add = [], on_remove = [7]\<rparr>" by simp_all
  note steps = create_any_handlers [of ?h] add0_fresh [of ?h, OF h0] remove1_absent [of ?h, OF h1]
  show ?thesis
    apply (simp only: w0 steps bindF_def sum.case prod.case)
    apply (simp add: alive_unsafe_def has_def arch_at_def bindF_def)
    done
qed

text \<open>
  On a handle that is not alive, \<^verbatim>\<open>destroy\<close> changes nothing, \<^verbatim>\<open>get\<close> returns the null
  pointer and \<^verbatim>\<open>has\<close> returns false.
\<close>

lemma stale_handle_destroy_get_has:
  "\<not> alive_unsafe e w \<Longrightarrow>
     destroy_unsafe e w = Inr w \<and> get_unsafe c e w = Inr None \<and> has c e w = Inr False"
  by (simp add: destroy_unsafe_def get_unsafe_def has_def)

text \<open>
  Claim C1 says that every mutating operation on a handle that is not alive leaves the
  world unchanged. The run: \<^verbatim>\<open>create()\<close>, \<^verbatim>\<open>add<C0>(e)\<close>, \<^verbatim>\<open>destroy(e)\<close>, and \<^verbatim>\<open>add<C0>(e)\<close>
  again with the handle that is no longer alive. The last add puts a row for the dead
  handle into the archetype and points the directory slot at it.
\<close>

theorem stale_add_changes_state:
  "bindF (create_unsafe (empty_world :: int World)) (\<lambda>(e, w1).
     bindF (add [0] e w1) (\<lambda>(w2, calls2).
       bindF (destroy_unsafe e w2) (\<lambda>w3.
         bindF (add [0] e w3) (\<lambda>(w4, calls4).
           Inr (e, alive_unsafe e w3, w4 = w3,
                map (\<lambda>(k, a). (k, entities a, components a 0)) (archetypes w3), entity_locations w3,
                map (\<lambda>(k, a). (k, entities a, components a 0)) (archetypes w4), entity_locations w4)))))
   = Inr (\<lparr>eid = 0, generation = 0\<rparr>, False, False,
          [(1, [], Some [])], [\<lparr>arch = None, index = 0\<rparr>],
          [(1, [\<lparr>eid = 0, generation = 0\<rparr>], Some [0])], [\<lparr>arch = Some 1, index = 0\<rparr>])"
  by (simp add: create_empty bindF_def add0_fresh destroy_added add0_stale alive_unsafe_def)

section \<open>Queries\<close>

lemma required_has:
  assumes "key a AND foldl key_add 0 Cs = foldl key_add 0 Cs" and "c \<in> set Cs" and "c < RECS_MAX_COMPONENTS"
  shows "key_has (key a) c"
proof -
  have "key_has (foldl key_add 0 Cs) c"
    using assms(2,3) by (simp add: key_has_foldl_add RECS_MAX_COMPONENTS_def)
  then have "bit (key a AND foldl key_add 0 Cs) c" using assms(1) by (simp add: key_has_bit)
  then show ?thesis by (simp add: key_has_bit bit_and_iff)
qed

lemma parity_column:
  assumes "arch_parity a" and "key_has (key a) c"
  shows "components a c = Some (column a c) \<and> length (column a c) = length (entities a)"
proof -
  have "c < RECS_MAX_COMPONENTS" using key_has_less [OF assms(2)] by (simp add: RECS_MAX_COMPONENTS_def)
  with assms show ?thesis by (auto simp: arch_parity_def column_def split: option.splits)
qed

lemma fetch_row_ok:
  assumes "arch_parity a" and "\<forall>c\<in>set Cs. key_has (key a) c" and "i < length (entities a)"
  shows "fetch_row a i Cs = Inr (map (\<lambda>c. column a c ! i) Cs)"
  using assms(2)
proof (induction Cs)
  case Nil
  show ?case by simp
next
  case (Cons c Cs)
  have "components a c = Some (column a c) \<and> length (column a c) = length (entities a)"
    using parity_column [OF assms(1)] Cons.prems by simp
  then show ?case using Cons assms(3) by (simp add: get_array_def bindF_def)
qed

lemma visit_rows_ok:
  assumes "arch_parity a" and "\<forall>c\<in>set Cs. key_has (key a) c" and "\<forall>i\<in>set is. i < length (entities a)"
  shows "visit_rows k a Cs is = Inr (map (\<lambda>i. (k, i, map (\<lambda>c. column a c ! i) Cs)) is)"
  using assms(3) by (induction "is") (simp_all add: fetch_row_ok [OF assms(1,2)] bindF_def)

lemma arch_visit_ok:
  assumes "arch_parity a" and "key a AND foldl key_add 0 Cs = foldl key_add 0 Cs"
    and "\<forall>c\<in>set Cs. c < RECS_MAX_COMPONENTS"
  shows "visit_rows k a Cs [0..<length (entities a)] = Inr (arch_rows k a Cs)"
  unfolding arch_rows_def
  by (rule visit_rows_ok [OF assms(1)]) (use assms(2,3) in \<open>auto intro: required_has\<close>)

lemma each_archs_ok:
  assumes "\<forall>(k, a)\<in>set archs. arch_parity a" and "\<forall>c\<in>set Cs. c < RECS_MAX_COMPONENTS"
  shows "each_archs Cs (foldl key_add 0 Cs) E archs =
     Inr (concat (map (\<lambda>(k, a). arch_rows k a Cs)
            (filter (\<lambda>(k, a). matches (foldl key_add 0 Cs) E a) archs)))"
  using assms(1)
proof (induction archs)
  case Nil
  show ?case by simp
next
  case (Cons x archs)
  obtain k a where x: "x = (k, a)" by (cases x)
  from Cons.prems x have pa: "arch_parity a" by simp
  from Cons have IH: "each_archs Cs (foldl key_add 0 Cs) E archs =
     Inr (concat (map (\<lambda>(k, a). arch_rows k a Cs)
            (filter (\<lambda>(k, a). matches (foldl key_add 0 Cs) E a) archs)))" by simp
  show ?case
  proof (cases "matches (foldl key_add 0 Cs) E a")
    case True
    then show ?thesis using IH arch_visit_ok [OF pa _ assms(2), of k]
      by (simp add: x matches_def bindF_def)
  next
    case False
    then show ?thesis using IH by (auto simp: x matches_def)
  qed
qed

lemma overlap_excluded:
  fixes k I E :: "'a::len word"
  assumes "k AND I = I" and "I AND E \<noteq> 0"
  shows "k AND E \<noteq> 0"
proof
  assume "k AND E = 0"
  have "I AND E = (k AND I) AND E" using assms(1) by simp
  also have "\<dots> = I AND (k AND E)" by (simp add: ac_simps)
  also have "\<dots> = 0" using \<open>k AND E = 0\<close> by simp
  finally show False using assms(2) by simp
qed

lemma each_archs_overlap:
  assumes "I AND E \<noteq> 0"
  shows "each_archs Cs I E archs = Inr []"
proof (induction archs)
  case Nil
  show ?case by simp
next
  case (Cons x archs)
  obtain k a where x: "x = (k, a)" by (cases x)
  show ?case using Cons overlap_excluded [OF _ assms, of "key a"] by (auto simp: x)
qed

lemma common_component_overlap:
  assumes "c \<in> set Cs" and "c \<in> set Es" and "c < RECS_MAX_COMPONENTS"
  shows "foldl key_add 0 Cs AND foldl key_add 0 Es \<noteq> 0"
proof -
  have "key_has (foldl key_add 0 Cs) c" "key_has (foldl key_add 0 Es) c"
    using assms by (simp_all add: key_has_foldl_add RECS_MAX_COMPONENTS_def)
  then have "bit (foldl key_add 0 Cs AND foldl key_add 0 Es) c" by (simp add: key_has_bit bit_and_iff)
  then show ?thesis by auto
qed

lemma sample_world_parity: "row_parity sample_world"
  by (auto simp: row_parity_def arch_parity_def sample_world_def)

text \<open>
  Claim C6. In a world with row parity, and for component ids below
  \<^verbatim>\<open>RECS_MAX_COMPONENTS\<close>, \<^verbatim>\<open>query<Cs...>().exclude<Es...>().each\<close> returns without a fault and
  visits exactly the rows, in order, of the archetypes \<open>A\<close> with \<open>(A.key & I) == I\<close> and
  \<open>(A.key & E) == 0\<close>, where \<open>I\<close> and \<open>E\<close> are the masks of \<open>Cs\<close> and \<open>Es\<close>. When \<open>Cs\<close>
  and \<open>Es\<close> have a component in common the query visits no row, in any world.
\<close>

theorem query_each_visits_matching:
  "(row_parity w \<and> (\<forall>c\<in>set Cs. c < RECS_MAX_COMPONENTS) \<longrightarrow>
      each (exclude Es (query Cs)) w = Inr (query_rows Cs Es w)) \<and>
   ((\<exists>c\<in>set Cs. c \<in> set Es \<and> c < RECS_MAX_COMPONENTS) \<longrightarrow> each (exclude Es (query Cs)) w = Inr [])"
proof -
  have "each (exclude Es (query Cs)) w = Inr []"
    if "c \<in> set Cs" "c \<in> set Es" "c < RECS_MAX_COMPONENTS" for c
    using common_component_overlap [OF that]
    by (simp add: each_def exclude_def query_def each_archs_overlap)
  then show ?thesis
    by (auto simp: each_def exclude_def query_def query_rows_def row_parity_def each_archs_ok)
qed

theorem query_each_visits_matching_witness:
  "row_parity sample_world \<and> (0 :: nat) < RECS_MAX_COMPONENTS \<and>
   each (exclude [1] (query [0])) sample_world = Inr [(1, 0, [5])] \<and>
   each (exclude [0] (query [0])) sample_world = Inr []"
proof -
  have b: "\<forall>c\<in>set [0]. c < RECS_MAX_COMPONENTS" by (simp add: RECS_MAX_COMPONENTS_def)
  have q: "query_rows [0] [1] sample_world = [(1, 0, [5])]"
    by (simp add: query_rows_def matches_def arch_rows_def column_def key_add_def sample_world_def)
  have o: "\<exists>c\<in>set [0]. c \<in> set [0] \<and> c < RECS_MAX_COMPONENTS" using b by simp
  have i1: "each (exclude [1] (query [0])) sample_world = Inr [(1, 0, [5])]"
    using query_each_visits_matching [of sample_world "[0]" "[1]"] sample_world_parity b q by simp
  have i2: "each (exclude [0] (query [0])) sample_world = Inr []"
    using query_each_visits_matching [of sample_world "[0]" "[0]"] o by blast
  show ?thesis using i1 i2 sample_world_parity b by simp
qed

section \<open>Chunked iteration\<close>

lemma for_each_archs_each: "for_each_archs Cs r archs = each_archs Cs r 0 archs"
  by (induction archs) auto

lemma base_pointers_ok:
  assumes "arch_parity a" and "\<forall>c\<in>set Cs. key_has (key a) c"
  shows "base_pointers a Cs = Inr (map (column a) Cs)"
  using assms(2)
proof (induction Cs)
  case Nil
  show ?case by simp
next
  case (Cons c Cs)
  have "components a c = Some (column a c)" using parity_column [OF assms(1)] Cons.prems by simp
  then show ?case using Cons by (simp add: get_array_def bindF_def)
qed

lemma read_bases_ok:
  assumes "\<forall>c\<in>set Cs. i < length (column a c)"
  shows "read_bases (map (column a) Cs) i = Inr (map (\<lambda>c. column a c ! i) Cs)"
  using assms by (induction Cs) (simp_all add: bindF_def)

lemma chunk_rows_from_ok:
  assumes "\<forall>c\<in>set Cs. \<forall>i\<in>set is. i < length (column a c)"
  shows "chunk_rows_from k (map (column a) Cs) is = Inr (map (\<lambda>i. (k, i, map (\<lambda>c. column a c ! i) Cs)) is)"
  using assms by (induction "is") (simp_all add: read_bases_ok bindF_def)

lemma chunk_covers_archetype:
  assumes "arch_parity a" and "key a AND foldl key_add 0 Cs = foldl key_add 0 Cs"
    and "\<forall>c\<in>set Cs. c < RECS_MAX_COMPONENTS"
  shows "base_pointers a Cs = Inr (map (column a) Cs) \<and>
     chunk_rows \<lparr>ch_arch = k, ch_base = map (column a) Cs, ch_count = length (entities a)\<rparr> = Inr (arch_rows k a Cs)"
proof -
  have has: "\<forall>c\<in>set Cs. key_has (key a) c" using assms(2,3) by (auto intro: required_has)
  then have len: "\<forall>c\<in>set Cs. length (column a c) = length (entities a)"
    using parity_column [OF assms(1)] by simp
  show ?thesis
    using base_pointers_ok [OF assms(1) has] chunk_rows_from_ok [of Cs "[0..<length (entities a)]" a k] len
    by (simp add: chunk_rows_def arch_rows_def)
qed

lemma for_each_chunk_archs_ok:
  assumes "\<forall>(k, a)\<in>set archs. arch_parity a" and "\<forall>c\<in>set Cs. c < RECS_MAX_COMPONENTS"
  shows "\<exists>chs. for_each_chunk_archs Cs (foldl key_add 0 Cs) archs = Inr chs \<and>
     chunks_rows chs = Inr (concat (map (\<lambda>(k, a). arch_rows k a Cs)
            (filter (\<lambda>(k, a). matches (foldl key_add 0 Cs) 0 a) archs)))"
  using assms(1)
proof (induction archs)
  case Nil
  show ?case by simp
next
  case (Cons x archs)
  obtain k a where x: "x = (k, a)" by (cases x)
  from Cons.prems x have pa: "arch_parity a" by simp
  from Cons obtain chs where IH: "for_each_chunk_archs Cs (foldl key_add 0 Cs) archs = Inr chs"
    "chunks_rows chs = Inr (concat (map (\<lambda>(k, a). arch_rows k a Cs)
            (filter (\<lambda>(k, a). matches (foldl key_add 0 Cs) 0 a) archs)))" by auto
  show ?case
  proof (cases "matches (foldl key_add 0 Cs) 0 a")
    case False
    then show ?thesis using IH by (auto simp: x matches_def)
  next
    case True
    show ?thesis
    proof (cases "entities a = []")
      case True
      then have "arch_rows k a Cs = []" by (simp add: arch_rows_def)
      then show ?thesis using IH True \<open>matches (foldl key_add 0 Cs) 0 a\<close> by (auto simp: x matches_def)
    next
      case False
      from True have m: "key a AND foldl key_add 0 Cs = foldl key_add 0 Cs" by (simp add: matches_def)
      show ?thesis using IH False True chunk_covers_archetype [OF pa m assms(2), of k]
        by (simp add: x matches_def bindF_def)
    qed
  qed
qed

text \<open>
  Claim C8. In a world with row parity, and for component ids below
  \<^verbatim>\<open>RECS_MAX_COMPONENTS\<close>, \<^verbatim>\<open>for_each<Cs...>\<close> and \<^verbatim>\<open>for_each_chunk<Cs...>\<close> both return
  without a fault, and the rows that the chunk callbacks cover, chunk after chunk, are
  the visits of \<^verbatim>\<open>for_each\<close> in the same order; so the two deliver the same multiset of
  (entity, component values) pairs.
\<close>

theorem chunked_iteration_same_rows:
  assumes "row_parity w" and "\<forall>c\<in>set Cs. c < RECS_MAX_COMPONENTS"
  shows "\<exists>vs chs rs. for_each Cs w = Inr vs \<and> for_each_chunk Cs w = Inr chs \<and> chunks_rows chs = Inr rs \<and>
     rs = vs \<and> image_mset (entity_pair w) (mset rs) = image_mset (entity_pair w) (mset vs)"
proof -
  have p: "\<forall>(k, a)\<in>set (archetypes w). arch_parity a" using assms(1) by (simp add: row_parity_def)
  from for_each_chunk_archs_ok [OF p assms(2)] each_archs_ok [OF p assms(2), of 0]
  show ?thesis by (auto simp: for_each_def for_each_chunk_def for_each_archs_each)
qed

theorem chunked_iteration_same_rows_witness:
  "row_parity sample_world \<and> (0 :: nat) < RECS_MAX_COMPONENTS \<and> (1 :: nat) < RECS_MAX_COMPONENTS \<and>
   for_each [0, 1] sample_world = Inr [(3, 0, [7, 9]), (3, 1, [8, 10])] \<and>
   for_each_chunk [0, 1] sample_world = Inr [\<lparr>ch_arch = 3, ch_base = [[7, 8], [9, 10]], ch_count = 2\<rparr>] \<and>
   chunks_rows [\<lparr>ch_arch = 3, ch_base = [[7, 8], [9, 10 :: int]], ch_count = 2\<rparr>]
     = Inr [(3, 0, [7, 9]), (3, 1, [8, 10])]"
proof -
  have b: "\<forall>c\<in>set [0, 1]. c < RECS_MAX_COMPONENTS" by (simp add: RECS_MAX_COMPONENTS_def)
  have fc: "for_each_chunk [0, 1] sample_world = Inr [\<lparr>ch_arch = 3, ch_base = [[7, 8], [9, 10]], ch_count = 2\<rparr>]"
    by (simp add: for_each_chunk_def sample_world_def key_add_def get_array_def bindF_def)
  have fe: "for_each [0, 1] sample_world = Inr [(3, 0, [7, 9]), (3, 1, [8, 10])]"
    by (simp add: for_each_def sample_world_def key_add_def get_array_def bindF_def upt_rec)
  show ?thesis
    using chunked_iteration_same_rows [OF sample_world_parity b] b fc fe sample_world_parity by auto
qed

section \<open>Row parity\<close>

lemma world_inv_archs_ok: "world_inv w \<longleftrightarrow> archs_ok (archetypes w)"
  by (auto simp: world_inv_def keys_ok_def row_parity_def archs_ok_def dest: map_of_SomeD)

lemma archs_ok_imp_except: "archs_ok archs \<Longrightarrow> archs_ok_except nk archs"
  by (simp add: archs_ok_def archs_ok_except_def)

lemma archs_ok_update:
  "archs_ok_except k archs \<Longrightarrow> key a = k \<Longrightarrow> arch_parity a \<Longrightarrow> archs_ok (AList.update k a archs)"
  by (auto simp: archs_ok_def archs_ok_except_def distinct_update update_conv')

lemma archs_ok_except_update:
  "archs_ok_except k archs \<Longrightarrow> key a = k \<Longrightarrow> archs_ok_except k (AList.update k a archs)"
  by (auto simp: archs_ok_except_def distinct_update update_conv')

lemma arch_parity_pre: "arch_parity a \<Longrightarrow> pre_parity (length (entities a)) (key a) (components a)"
  by (auto simp: arch_parity_def pre_parity_def split: option.splits)

lemma get_or_create_props:
  assumes "archs_ok archs"
  shows "\<exists>na. map_of (get_or_create_archetype nk archs) nk = Some na \<and> key na = nk \<and>
     pre_parity (length (entities na)) nk (components na) \<and>
     archs_ok_except nk (get_or_create_archetype nk archs) \<and>
     (\<forall>k a. map_of archs k = Some a \<longrightarrow> map_of (get_or_create_archetype nk archs) k = Some a) \<and>
     (\<forall>x\<in>set (entities na). \<exists>a. map_of archs nk = Some a \<and> x \<in> set (entities a))"
proof (cases "map_of archs nk")
  case None
  then have nk: "nk \<notin> fst ` set archs" by (simp add: map_of_eq_None_iff)
  let ?f = "\<lparr>key = nk, entities = [], components = (\<lambda>c. None)\<rparr> :: 'a Archetype"
  have m: "map_of (archs @ [(nk, ?f)]) k = (if k = nk then Some ?f else map_of archs k)" for k
    using None by (auto simp: map_add_def split: option.splits)
  have "archs_ok_except nk (archs @ [(nk, ?f)])"
    using assms nk unfolding archs_ok_except_def archs_ok_def
    by (auto simp del: map_of_append simp add: m split: if_splits)
  then show ?thesis using None
    by (auto simp del: map_of_append simp add: get_or_create_archetype_def m pre_parity_def)
next
  case (Some a)
  with assms have "key a = nk" "arch_parity a" by (auto simp: archs_ok_def)
  with arch_parity_pre [of a] have "pre_parity (length (entities a)) nk (components a)" by simp
  then show ?thesis using assms Some \<open>key a = nk\<close>
    by (auto simp: get_or_create_archetype_def archs_ok_def archs_ok_except_def)
qed

lemma ensure_array_fields [simp]:
  "key (foldl ensure_array a Cs) = key a" "entities (foldl ensure_array a Cs) = entities a"
  by (induction Cs arbitrary: a) (auto simp: ensure_array_def)

lemma ensure_array_pre:
  "pre_parity n k (components a) \<Longrightarrow> pre_parity n k (components (foldl ensure_array a Cs))"
proof (induction Cs arbitrary: a)
  case Nil
  then show ?case by simp
next
  case (Cons c Cs)
  have "pre_parity n k (components (ensure_array a c))"
    using Cons.prems by (auto simp: pre_parity_def ensure_array_def split: option.splits)
  then show ?case using Cons.IH by simp
qed

lemma ensure_array_present:
  "c \<in> set Cs \<or> components a c \<noteq> None \<Longrightarrow> components (foldl ensure_array a Cs) c \<noteq> None"
  by (induction Cs arbitrary: a) (auto simp: ensure_array_def)

lemma default_col_result:
  "default_col k c col = Inr r \<Longrightarrow> key_has k c \<Longrightarrow> \<exists>d. col = Some d \<and> r = Some (d @ [0])"
  by (auto simp: default_col_def emplace_default_def split: option.splits)

lemma copy_col_result:
  "copy_col nk oi c ko ocol ncol = Inr r \<Longrightarrow> key_has nk c \<Longrightarrow>
     \<exists>d. ncol = Some d \<and>
       (if key_has ko c then \<exists>s. ocol = Some s \<and> oi < length s \<and> r = Some (d @ [s ! oi])
        else r = Some (d @ [0]))"
  by (auto simp: copy_col_def emplace_default_def copy_element_def bindF_def split: option.splits if_splits)

lemma pop_col_result:
  "pop_col k i l c col = Inr r \<Longrightarrow> key_has k c \<Longrightarrow>
     \<exists>vec. col = Some vec \<and> i < length vec \<and> l < length vec \<and> r = Some (butlast (vec[i := vec ! l]))"
  by (auto simp: pop_col_def move_and_pop_def bindF_def split: option.splits if_splits)

lemma default_loop_parity:
  assumes "for_ids [0..<RECS_MAX_COMPONENTS] (default_step k) comps = Inr comps'"
    and "pre_parity n k comps" and "key a = k" and "length (entities a) = Suc n"
  shows "arch_parity (a\<lparr>components := comps'\<rparr>)"
  unfolding arch_parity_def
proof (intro allI impI)
  fix c assume c: "c < RECS_MAX_COMPONENTS" and "key_has (key (a\<lparr>components := comps'\<rparr>)) c"
  then have h: "key_has k c" using assms(3) by simp
  from assms(1) c have "default_col k c (comps c) = Inr (comps' c)" unfolding default_loop by metis
  from default_col_result [OF this h] obtain d where "comps c = Some d" "comps' c = Some (d @ [0])" by blast
  then show "case components (a\<lparr>components := comps'\<rparr>) c of None \<Rightarrow> False
      | Some vec \<Rightarrow> length vec = length (entities (a\<lparr>components := comps'\<rparr>))"
    using h assms(2,4) c by (auto simp: pre_parity_def)
qed

lemma clone_cols_pre:
  assumes "\<forall>c. if c < m then clone_col nk c ko (ocomps c) (comps c) = Inr (F c) else F c = comps c"
    and "pre_parity n nk comps"
  shows "pre_parity n nk F"
  unfolding pre_parity_def
proof (intro allI impI)
  fix c assume c: "c < RECS_MAX_COMPONENTS" and h: "key_has nk c"
  have "F c = comps c \<or> (comps c = None \<and> F c = clone_empty (ocomps c))"
    using assms(1) [rule_format, of c] by (auto simp: clone_col_def split: if_splits)
  then show "case F c of None \<Rightarrow> n = 0 | Some vec \<Rightarrow> length vec = n"
    using assms(2) c h by (auto simp: pre_parity_def clone_empty_def split: option.splits)
qed

lemma copy_cols_parity:
  assumes "\<forall>c. if c < RECS_MAX_COMPONENTS then copy_col nk oi c ko (ocomps c) (F c) = Inr (G c) else G c = F c"
    and "pre_parity n nk F" and "key a = nk" and "length (entities a) = Suc n"
  shows "arch_parity (a\<lparr>components := G\<rparr>)"
  unfolding arch_parity_def
proof (intro allI impI)
  fix c assume c: "c < RECS_MAX_COMPONENTS" and "key_has (key (a\<lparr>components := G\<rparr>)) c"
  then have h: "key_has nk c" using assms(3) by simp
  from assms(1) c have "copy_col nk oi c ko (ocomps c) (F c) = Inr (G c)" by metis
  from copy_col_result [OF this h] obtain d x where "F c = Some d" "G c = Some (d @ [x])"
    by (auto split: if_splits)
  then show "case components (a\<lparr>components := G\<rparr>) c of None \<Rightarrow> False
      | Some vec \<Rightarrow> length vec = length (entities (a\<lparr>components := G\<rparr>))"
    using h assms(2,4) c by (auto simp: pre_parity_def)
qed

lemma pop_cols_parity:
  assumes "\<forall>c. if c < RECS_MAX_COMPONENTS then pop_col (key a) i l c (components a c) = Inr (comps' c)
             else comps' c = components a c"
    and "arch_parity a" and "length ents = length (entities a) - 1"
  shows "arch_parity (a\<lparr>entities := ents, components := comps'\<rparr>)"
  unfolding arch_parity_def
proof (intro allI impI)
  fix c assume c: "c < RECS_MAX_COMPONENTS" and "key_has (key (a\<lparr>entities := ents, components := comps'\<rparr>)) c"
  then have h: "key_has (key a) c" by simp
  from assms(1) c have "pop_col (key a) i l c (components a c) = Inr (comps' c)" by metis
  from pop_col_result [OF this h] obtain vec where
    "components a c = Some vec" "comps' c = Some (butlast (vec[i := vec ! l]))" by blast
  then show "case components (a\<lparr>entities := ents, components := comps'\<rparr>) c of None \<Rightarrow> False
      | Some vec \<Rightarrow> length vec = length (entities (a\<lparr>entities := ents, components := comps'\<rparr>))"
    using h assms(2,3) c by (auto simp: arch_parity_def)
qed

lemma remove_from_archetype_ok:
  assumes "remove_from_archetype e k i w = Inr w'" and "archs_ok (archetypes w)"
  shows "archs_ok (archetypes w')"
proof -
  from assms(1) obtain a where a: "map_of (archetypes w) k = Some a"
    by (auto simp: remove_from_archetype_def arch_at_def bindF_def split: option.splits)
  from assms(1) a obtain comps' where
    loop: "for_ids [0..<RECS_MAX_COMPONENTS] (pop_step (key a) i (length (entities a) - 1)) (components a) = Inr comps'"
    and w': "archetypes w' = AList.update k
        (a\<lparr>entities := butlast ((entities a)[i := entities a ! (length (entities a) - 1)]), components := comps'\<rparr>)
        (archetypes w)"
    by (auto simp: remove_from_archetype_def arch_at_def bindF_def Let_def split: if_splits sum.splits)
  from a assms(2) have ka: "key a = k" and pa: "arch_parity a" by (auto simp: archs_ok_def)
  have "arch_parity (a\<lparr>entities := butlast ((entities a)[i := entities a ! (length (entities a) - 1)]), components := comps'\<rparr>)"
    by (rule pop_cols_parity [OF loop [unfolded pop_loop] pa]) simp
  then show ?thesis unfolding w'
    by (intro archs_ok_update archs_ok_imp_except assms(2)) (simp_all add: ka)
qed

lemma migrate_fresh_cases:
  assumes "migrate Cs e adding w = Inr (w', calls)"
    and "arch (entity_locations w ! unat (eid e)) = None"
  shows "\<exists>na comps.
      map_of (get_or_create_archetype (new_key_of adding 0 Cs) (archetypes w)) (new_key_of adding 0 Cs) = Some na \<and>
      for_ids [0..<RECS_MAX_COMPONENTS] (default_step (new_key_of adding 0 Cs))
         (components (with_entity adding na e Cs)) = Inr comps \<and>
      w' = w\<lparr>archetypes := AList.update (new_key_of adding 0 Cs) ((with_entity adding na e Cs)\<lparr>components := comps\<rparr>)
                 (get_or_create_archetype (new_key_of adding 0 Cs) (archetypes w)),
              entity_locations := (entity_locations w)[unat (eid e) :=
                 \<lparr>arch = Some (new_key_of adding 0 Cs), index = length (entities na)\<rparr>]\<rparr>"
  using assms
  by (cases adding)
     (auto simp: migrate_def new_key_of_def with_entity_def Let_def bindF_def arch_at_def
        split: if_splits sum.splits option.splits)

lemma migrate_move_cases:
  assumes "migrate Cs e adding w = Inr (w', calls)"
    and "arch (entity_locations w ! unat (eid e)) = Some ok"
  shows "\<exists>oa na archs3 archs4 w1.
      map_of (archetypes w) ok = Some oa \<and>
      map_of (get_or_create_archetype (new_key_of adding (key oa) Cs) (archetypes w)) (new_key_of adding (key oa) Cs) = Some na \<and>
      for_ids [0..<RECS_MAX_COMPONENTS] (clone_step ok (new_key_of adding (key oa) Cs))
          (AList.update (new_key_of adding (key oa) Cs) (with_entity adding na e Cs)
             (get_or_create_archetype (new_key_of adding (key oa) Cs) (archetypes w))) = Inr archs3 \<and>
      for_ids [0..<RECS_MAX_COMPONENTS]
          (copy_step ok (new_key_of adding (key oa) Cs) (index (entity_locations w ! unat (eid e)))) archs3 = Inr archs4 \<and>
      remove_from_archetype e ok (index (entity_locations w ! unat (eid e))) (w\<lparr>archetypes := archs4\<rparr>) = Inr w1 \<and>
      w' = w1\<lparr>entity_locations := (entity_locations w1)[unat (eid e) :=
                 \<lparr>arch = Some (new_key_of adding (key oa) Cs), index = length (entities na)\<rparr>]\<rparr>"
  using assms
  by (cases adding)
     (auto simp: migrate_def new_key_of_def with_entity_def Let_def bindF_def arch_at_def
        split: if_splits sum.splits option.splits)

lemma with_entity_fields [simp]:
  "key (with_entity adding na e Cs) = key na"
  "entities (with_entity adding na e Cs) = entities na @ [e]"
  by (simp_all add: with_entity_def)

lemma with_entity_pre:
  "pre_parity n k (components na) \<Longrightarrow> pre_parity n k (components (with_entity adding na e Cs))"
  using ensure_array_pre [of n k "na\<lparr>entities := entities na @ [e]\<rparr>" Cs]
  by (simp add: with_entity_def)

lemma migrate_ok:
  assumes m: "migrate Cs e adding w = Inr (w', calls)" and ok: "archs_ok (archetypes w)"
  shows "archs_ok (archetypes w')"
proof (cases "arch (entity_locations w ! unat (eid e))")
  case None
  define nk where "nk = new_key_of adding 0 Cs"
  from migrate_fresh_cases [OF m None] obtain na comps where
    na: "map_of (get_or_create_archetype nk (archetypes w)) nk = Some na"
    and loop: "for_ids [0..<RECS_MAX_COMPONENTS] (default_step nk) (components (with_entity adding na e Cs)) = Inr comps"
    and w': "archetypes w' = AList.update nk ((with_entity adding na e Cs)\<lparr>components := comps\<rparr>)
                 (get_or_create_archetype nk (archetypes w))"
    unfolding nk_def by auto
  from get_or_create_props [OF ok, of nk] na have
    k: "key na = nk" and pre: "pre_parity (length (entities na)) nk (components na)"
    and ex: "archs_ok_except nk (get_or_create_archetype nk (archetypes w))" by auto
  have "arch_parity ((with_entity adding na e Cs)\<lparr>components := comps\<rparr>)"
    by (rule default_loop_parity [OF loop with_entity_pre [OF pre]]) (simp_all add: k)
  then show ?thesis unfolding w' by (intro archs_ok_update ex) (simp_all add: k)
next
  case (Some old)
  from migrate_move_cases [OF m Some] obtain oa where oa: "map_of (archetypes w) old = Some oa" by auto
  define nk where "nk = new_key_of adding (key oa) Cs"
  define oi where "oi = index (entity_locations w ! unat (eid e))"
  define archs1 where "archs1 = get_or_create_archetype nk (archetypes w)"
  from migrate_move_cases [OF m Some] oa obtain na archs3 archs4 w1 where
    na: "map_of archs1 nk = Some na"
    and clone: "for_ids [0..<RECS_MAX_COMPONENTS] (clone_step old nk)
          (AList.update nk (with_entity adding na e Cs) archs1) = Inr archs3"
    and copy: "for_ids [0..<RECS_MAX_COMPONENTS] (copy_step old nk oi) archs3 = Inr archs4"
    and rm: "remove_from_archetype e old oi (w\<lparr>archetypes := archs4\<rparr>) = Inr w1"
    and w': "archetypes w' = archetypes w1"
    unfolding nk_def oi_def archs1_def by auto
  from get_or_create_props [OF ok, of nk] na have
    k: "key na = nk" and pre: "pre_parity (length (entities na)) nk (components na)"
    and ex: "archs_ok_except nk archs1"
    and ext: "\<forall>k a. map_of (archetypes w) k = Some a \<longrightarrow> map_of archs1 k = Some a"
    unfolding archs1_def by auto
  let ?na2 = "with_entity adding na e Cs"
  let ?archs2 = "AList.update nk ?na2 archs1"
  have n2: "map_of ?archs2 nk = Some ?na2" by (simp add: update_conv')
  obtain o2 where o2: "map_of ?archs2 old = Some o2"
    using oa ext by (cases "old = nk") (auto simp: update_conv')
  from clone [unfolded clone_loop [OF n2 o2]] obtain F where
    F: "\<forall>c. if c < RECS_MAX_COMPONENTS then clone_col nk c (key o2) (components o2 c) (components ?na2 c) = Inr (F c)
            else F c = components ?na2 c"
    and a3: "archs3 = AList.update nk (?na2\<lparr>components := F\<rparr>) ?archs2" by blast
  have preF: "pre_parity (length (entities na)) nk F"
    by (rule clone_cols_pre [OF F with_entity_pre [OF pre]])
  let ?na3 = "?na2\<lparr>components := F\<rparr>"
  have n3: "map_of archs3 nk = Some ?na3" by (simp add: a3 update_conv')
  obtain o3 where o3: "map_of archs3 old = Some o3"
    using o2 by (cases "old = nk") (auto simp: a3 update_conv')
  from copy [unfolded copy_loop [OF n3 o3]] obtain G where
    G: "\<forall>c. if c < RECS_MAX_COMPONENTS then copy_col nk oi c (key o3) (components o3 c) (components ?na3 c) = Inr (G c)
            else G c = components ?na3 c"
    and a4: "archs4 = AList.update nk (?na3\<lparr>components := G\<rparr>) archs3" by blast
  have G': "\<forall>c. if c < RECS_MAX_COMPONENTS then copy_col nk oi c (key o3) (components o3 c) (F c) = Inr (G c)
            else G c = F c"
  proof
    fix c
    show "if c < RECS_MAX_COMPONENTS then copy_col nk oi c (key o3) (components o3 c) (F c) = Inr (G c)
            else G c = F c" using G [rule_format, of c] by (simp split: if_splits)
  qed
  have "arch_parity (?na3\<lparr>components := G\<rparr>)"
    by (rule copy_cols_parity [OF G' preF]) (simp_all add: k)
  moreover have "archs_ok_except nk archs3"
    unfolding a3 by (intro archs_ok_except_update ex) (simp_all add: k)
  ultimately have "archs_ok archs4" unfolding a4 by (intro archs_ok_update) (simp_all add: k)
  then have "archs_ok (archetypes w1)" using remove_from_archetype_ok [OF rm] by simp
  then show ?thesis by (simp add: w')
qed

lemma create_unsafe_archetypes:
  "create_unsafe w = Inr (e, w') \<Longrightarrow> archetypes w' = archetypes w"
  by (auto simp: create_unsafe_def Let_def split: if_splits)

lemma destroy_unsafe_ok:
  assumes "destroy_unsafe e w = Inr w'" and "archs_ok (archetypes w)"
  shows "archs_ok (archetypes w')"
proof (cases "alive_unsafe e w")
  case False
  then show ?thesis using assms by (simp add: destroy_unsafe_def)
next
  case True
  with assms(1) obtain k w1 where
    "remove_from_archetype e k (index (entity_locations w ! unat (eid e))) w = Inr w1"
    and "archetypes w' = archetypes w1"
    by (auto simp: destroy_unsafe_def Let_def bindF_def split: if_splits option.splits sum.splits)
  then show ?thesis using remove_from_archetype_ok [OF _ assms(2)] by simp
qed

lemma store_ok:
  assumes "store p v w = Inr w'" and "archs_ok (archetypes w)"
  shows "archs_ok (archetypes w')"
proof -
  from assms(1) obtain a vec where a: "map_of (archetypes w) (p_arch p) = Some a"
    and vec: "components a (p_comp p) = Some vec"
    and w': "archetypes w' = AList.update (p_arch p)
        (a\<lparr>components := (components a)(p_comp p \<mapsto> vec[p_row p := v])\<rparr>) (archetypes w)"
    by (auto simp: store_def arch_at_def get_array_def bindF_def split: option.splits if_splits)
  from a assms(2) have ka: "key a = p_arch p" and pa: "arch_parity a" by (auto simp: archs_ok_def)
  have "arch_parity (a\<lparr>components := (components a)(p_comp p \<mapsto> vec[p_row p := v])\<rparr>)"
    using pa vec by (auto simp: arch_parity_def split: option.splits)
  then show ?thesis unfolding w'
    by (intro archs_ok_update archs_ok_imp_except assms(2)) (simp_all add: ka)
qed

lemma set_value_ok:
  assumes "set_value c e v w = Inr w'" and "archs_ok (archetypes w)"
  shows "archs_ok (archetypes w')"
  using assms store_ok
  by (auto simp: set_value_def bindF_def split: sum.splits option.splits)

lemma add_value_ok:
  assumes "add_value c e v w = Inr (w', calls)" and "archs_ok (archetypes w)"
  shows "archs_ok (archetypes w')"
proof -
  from assms(1) have "\<exists>w1 calls1. migrate [c] e True w = Inr (w1, calls1) \<and>
      (w' = w1 \<or> (\<exists>p. store p v w1 = Inr w'))"
    by (auto simp: add_value_def bindF_def split: sum.splits option.splits)
  then obtain w1 calls1 where m: "migrate [c] e True w = Inr (w1, calls1)"
    and rest: "w' = w1 \<or> (\<exists>p. store p v w1 = Inr w')" by blast
  from migrate_ok [OF m assms(2)] rest show ?thesis using store_ok by auto
qed

lemma create_batch_archetypes:
  "create_batch n w = Inr (es, w') \<Longrightarrow> archetypes w' = archetypes w"
proof (induction n arbitrary: w es)
  case 0
  then show ?case by simp
next
  case (Suc n)
  then show ?case
    by (auto simp: bindF_def split: sum.splits prod.splits dest!: create_unsafe_archetypes)
qed

lemma destroy_batch_ok:
  "destroy_batch es w = Inr w' \<Longrightarrow> archs_ok (archetypes w) \<Longrightarrow> archs_ok (archetypes w')"
proof (induction es arbitrary: w)
  case Nil
  then show ?case by simp
next
  case (Cons e es)
  then show ?case by (auto simp: bindF_def split: sum.splits dest: destroy_unsafe_ok)
qed

lemma apply_operation_ok:
  assumes "apply_operation x w = Inr w'" and "archs_ok (archetypes w)"
  shows "archs_ok (archetypes w')"
proof (cases x)
  case Create
  then show ?thesis using assms
    by (auto simp: bindF_def split: sum.splits dest!: create_unsafe_archetypes)
next
  case (Destroy e)
  then show ?thesis using assms destroy_unsafe_ok by auto
next
  case (Add Cs e)
  then show ?thesis using assms migrate_ok
    by (auto simp: add_def bindF_def split: sum.splits)
next
  case (AddValue c e v)
  then show ?thesis using assms add_value_ok
    by (auto simp: bindF_def split: sum.splits)
next
  case (Remove Cs e)
  then show ?thesis using assms migrate_ok
    by (auto simp: remove_def bindF_def split: sum.splits)
next
  case (SetValue c e v)
  then show ?thesis using assms set_value_ok by auto
next
  case (CreateBatch n)
  then show ?thesis using assms
    by (auto simp: bindF_def split: sum.splits dest!: create_batch_archetypes)
next
  case (DestroyBatch es)
  then show ?thesis using assms destroy_batch_ok by auto
next
  case (OnComponentAdded c cb)
  then show ?thesis using assms by (auto simp: on_component_added_def Let_def)
next
  case (OnComponentRemoved c cb)
  then show ?thesis using assms by (auto simp: on_component_removed_def Let_def)
next
  case (WriteAt p v)
  then show ?thesis using assms store_ok by auto
qed

lemma run_ok:
  "run xs w = Inr w' \<Longrightarrow> archs_ok (archetypes w) \<Longrightarrow> archs_ok (archetypes w')"
proof (induction xs arbitrary: w)
  case Nil
  then show ?case by simp
next
  case (Cons x xs)
  then show ?case by (auto simp: bindF_def split: sum.splits dest: apply_operation_ok)
qed

text \<open>
  Claim C4. Every world that a sequence of public operations builds from the empty world,
  each operation returning without a fault, has row parity: in every archetype, every
  component whose bit is set in the key has a column, and that column is as long as the
  entity column. The operations are create, destroy, add, add with a value, remove,
  the two batch operations, the registration of hooks, and a write through a pointer
  that \<^verbatim>\<open>get\<close> returned or that an iteration callback received; alive, get, has and the
  iterations themselves do not change the world.
\<close>

theorem row_parity_after_operations:
  assumes "run xs empty_world = Inr w"
  shows "row_parity w"
proof -
  have "archs_ok (archetypes (empty_world :: 'a World))" by (simp add: archs_ok_def empty_world_def)
  from run_ok [OF assms this] show ?thesis
    by (simp add: world_inv_archs_ok [symmetric] world_inv_def)
qed

theorem row_parity_after_operations_witness:
  "run [Create, Add [0] \<lparr>eid = 0, generation = 0\<rparr>, Add [0] \<lparr>eid = 0, generation = 0\<rparr>] (empty_world :: int World) =
     Inr \<lparr>generations = [0], free_ids = [],
           archetypes = [(1, \<lparr>key = 1, entities = [\<lparr>eid = 0, generation = 0\<rparr>], components = (\<lambda>c. None)(0 \<mapsto> [0])\<rparr>)],
           entity_locations = [\<lparr>arch = Some 1, index = 1\<rparr>], event_handlers = (\<lambda>c. None)\<rparr> \<and>
   row_parity (\<lparr>generations = [0], free_ids = [],
           archetypes = [(1, \<lparr>key = 1, entities = [\<lparr>eid = 0, generation = 0\<rparr>], components = (\<lambda>c. None)(0 \<mapsto> [0])\<rparr>)],
           entity_locations = [\<lparr>arch = Some 1, index = 1\<rparr>], event_handlers = (\<lambda>c. None)\<rparr> :: int World)"
proof -
  have r: "run [Create, Add [0] \<lparr>eid = 0, generation = 0\<rparr>, Add [0] \<lparr>eid = 0, generation = 0\<rparr>] (empty_world :: int World) =
     Inr \<lparr>generations = [0], free_ids = [],
           archetypes = [(1, \<lparr>key = 1, entities = [\<lparr>eid = 0, generation = 0\<rparr>], components = (\<lambda>c. None)(0 \<mapsto> [0])\<rparr>)],
           entity_locations = [\<lparr>arch = Some 1, index = 1\<rparr>], event_handlers = (\<lambda>c. None)\<rparr>"
    by (simp add: bindF_def create_empty add0_fresh add0_again)
  from row_parity_after_operations [OF r] r show ?thesis by simp
qed

section \<open>Add, then remove\<close>

lemma ids_in_range_archs:
  "archs_ok (archetypes w) \<Longrightarrow> ids_in_range w \<longleftrightarrow> archs_in_range (length (entity_locations w)) (archetypes w)"
  unfolding ids_in_range_def archs_in_range_def archs_ok_def
  by (auto dest: map_of_SomeD)

lemma get_value_eq:
  assumes "archs_ok (archetypes w)" and "location_ok e w"
  shows "get_value c e w =
     Inr (if alive_unsafe e w \<and> arch (entity_locations w ! unat (eid e)) \<noteq> None \<and> key_has (key_of e w) c
          then Some (cell c e w) else None)"
proof (cases "arch (entity_locations w ! unat (eid e))")
  case None
  then show ?thesis using assms(2)
    by (simp add: get_value_def get_unsafe_def location_ok_def bindF_def)
next
  case (Some k)
  with assms(2) obtain a where a: "map_of (archetypes w) k = Some a"
    and i: "index (entity_locations w ! unat (eid e)) < length (entities a)"
    and r: "unat (eid e) < length (entity_locations w)"
    by (auto simp: location_ok_def split: option.splits)
  from a assms(1) have pa: "arch_parity a" by (auto simp: archs_ok_def)
  show ?thesis
  proof (cases "alive_unsafe e w \<and> key_has (key a) c")
    case True
    with parity_column [OF pa, of c] have "components a c = Some (column a c)"
      "length (column a c) = length (entities a)" by auto
    then show ?thesis using True Some a i r
      by (simp add: get_value_def get_unsafe_def load_def arch_at_def get_array_def bindF_def key_of_def cell_def)
  next
    case False
    then show ?thesis using Some a r
      by (auto simp: get_value_def get_unsafe_def arch_at_def bindF_def key_of_def)
  qed
qed

lemma remove_from_archetype_succeeds:
  assumes a: "map_of (archetypes w) k = Some a" and pa: "arch_parity a" and i: "i < length (entities a)"
    and moved: "unat (eid (entities a ! (length (entities a) - 1))) < length (entity_locations w)"
    and e: "unat (eid e) < length (entity_locations w)"
  shows "\<exists>a' locs'. remove_from_archetype e k i w =
            Inr (w\<lparr>archetypes := AList.update k a' (archetypes w), entity_locations := locs'\<rparr>) \<and>
          set (entities a') \<subseteq> set (entities a) \<and> length locs' = length (entity_locations w)"
proof -
  define l where "l = length (entities a) - Suc 0"
  define comps' where "comps' = (\<lambda>c. if c < RECS_MAX_COMPONENTS \<and> key_has (key a) c
      then Some (butlast ((the (components a c))[i := the (components a c) ! l])) else components a c)"
  define locs' where "locs' = ((entity_locations w)[unat (eid (entities a ! l)) :=
      (entity_locations w ! unat (eid (entities a ! l)))\<lparr>index := i\<rparr>])[unat (eid e) := \<lparr>arch = None, index = 0\<rparr>]"
  define a' where "a' = a\<lparr>entities := butlast ((entities a)[i := entities a ! l]), components := comps'\<rparr>"
  have "\<forall>c<RECS_MAX_COMPONENTS. key_has (key a) c \<longrightarrow>
      (\<exists>vec. components a c = Some vec \<and> i < length vec \<and> l < length vec)"
    using parity_column [OF pa] i by (auto simp: l_def)
  from pop_loop_eq [OF this]
  have loop: "for_ids [0..<RECS_MAX_COMPONENTS] (pop_step (key a) i l) (components a) = Inr comps'"
    by (simp add: comps'_def)
  have ne: "entities a \<noteq> []" using i by auto
  have "remove_from_archetype e k i w =
      Inr (w\<lparr>archetypes := AList.update k a' (archetypes w), entity_locations := locs'\<rparr>)"
    using a i moved e ne
    by (simp add: remove_from_archetype_def arch_at_def bindF_def Let_def l_def [symmetric] loop a'_def locs'_def)
  moreover have "set (entities a') \<subseteq> set (entities a)"
  proof
    fix x assume "x \<in> set (entities a')"
    then have "x \<in> set ((entities a)[i := entities a ! l])" by (auto simp: a'_def dest: in_set_butlastD)
    then have "x \<in> insert (entities a ! l) (set (entities a))" using set_update_subset_insert by fast
    then show "x \<in> set (entities a)" using i by (auto simp: l_def)
  qed
  moreover have "length locs' = length (entity_locations w)" by (simp add: locs'_def)
  ultimately show ?thesis by blast
qed

lemma migrate_fresh_eq:
  assumes "unat (eid e) < length (entity_locations w)"
    and "arch (entity_locations w ! unat (eid e)) = None"
    and "nk = new_key_of adding 0 Cs"
    and "map_of (get_or_create_archetype nk (archetypes w)) nk = Some na"
    and "for_ids [0..<RECS_MAX_COMPONENTS] (default_step nk) (components (with_entity adding na e Cs)) = Inr comps"
  shows "\<exists>calls. migrate Cs e adding w =
     Inr (w\<lparr>archetypes := AList.update nk ((with_entity adding na e Cs)\<lparr>components := comps\<rparr>)
                 (get_or_create_archetype nk (archetypes w)),
            entity_locations := (entity_locations w)[unat (eid e) := \<lparr>arch = Some nk, index = length (entities na)\<rparr>]\<rparr>,
          calls)"
  using assms
  by (cases adding)
     (simp_all add: migrate_def new_key_of_def with_entity_def Let_def bindF_def arch_at_def)

lemma migrate_move_eq:
  assumes "unat (eid e) < length (entity_locations w)"
    and "arch (entity_locations w ! unat (eid e)) = Some old"
    and "map_of (archetypes w) old = Some oa"
    and "nk = new_key_of adding (key oa) Cs"
    and "map_of (get_or_create_archetype nk (archetypes w)) nk = Some na"
    and "for_ids [0..<RECS_MAX_COMPONENTS] (clone_step old nk)
          (AList.update nk (with_entity adding na e Cs) (get_or_create_archetype nk (archetypes w))) = Inr archs3"
    and "for_ids [0..<RECS_MAX_COMPONENTS] (copy_step old nk (index (entity_locations w ! unat (eid e)))) archs3 = Inr archs4"
    and "remove_from_archetype e old (index (entity_locations w ! unat (eid e))) (w\<lparr>archetypes := archs4\<rparr>) = Inr w1"
  shows "\<exists>calls. migrate Cs e adding w =
     Inr (w1\<lparr>entity_locations := (entity_locations w1)[unat (eid e) := \<lparr>arch = Some nk, index = length (entities na)\<rparr>]\<rparr>,
          calls)"
  using assms
  by (cases adding)
     (simp_all add: migrate_def new_key_of_def with_entity_def Let_def bindF_def arch_at_def)

lemma with_entity_present:
  assumes "key_has (new_key_of adding kold Cs) c" and "\<not> key_has kold c"
  shows "components (with_entity adding na e Cs) c \<noteq> None"
proof (cases adding)
  case True
  with assms have "c \<in> set Cs" by (auto simp: new_key_of_def key_has_foldl_add)
  then show ?thesis using True ensure_array_present [of c Cs] by (simp add: with_entity_def)
next
  case False
  with assms show ?thesis by (auto simp: new_key_of_def key_has_foldl_remove)
qed

lemma archs_in_range_update:
  "archs_in_range n archs \<Longrightarrow> \<forall>x\<in>set (entities a). unat (eid x) < n \<Longrightarrow>
   archs_in_range n (AList.update k a archs)"
  by (auto simp: archs_in_range_def update_conv')

lemma get_or_create_in_range:
  "archs_in_range n archs \<Longrightarrow> archs_in_range n (get_or_create_archetype nk archs)"
  by (auto simp: archs_in_range_def get_or_create_archetype_def map_add_def split: option.splits if_splits)

lemma pre_parity_length:
  "pre_parity n k comps \<Longrightarrow> key_has k c \<Longrightarrow> comps c = Some d \<Longrightarrow> length d = n"
  using key_has_less [of k c] by (auto simp: pre_parity_def RECS_MAX_COMPONENTS_def)

lemma migrate_spec_fresh:
  assumes ok: "archs_ok (archetypes w)"
    and rng: "archs_in_range (length (entity_locations w)) (archetypes w)"
    and r: "unat (eid e) < length (entity_locations w)"
    and none: "arch (entity_locations w ! unat (eid e)) = None"
    and nk: "nk = new_key_of adding 0 Cs"
  shows "\<exists>w' calls. migrate Cs e adding w = Inr (w', calls) \<and>
      archs_ok (archetypes w') \<and> archs_in_range (length (entity_locations w')) (archetypes w') \<and>
      location_ok e w' \<and> arch (entity_locations w' ! unat (eid e)) = Some nk \<and> key_of e w' = nk \<and>
      generations w' = generations w \<and> (\<forall>c. key_has nk c \<longrightarrow> cell c e w' = 0)"
proof -
  define archs1 where "archs1 = get_or_create_archetype nk (archetypes w)"
  from get_or_create_props [OF ok, of nk] obtain na where
    na: "map_of archs1 nk = Some na" and k: "key na = nk"
    and pre: "pre_parity (length (entities na)) nk (components na)"
    unfolding archs1_def by blast
  define n where "n = length (entities na)"
  define na2 where "na2 = with_entity adding na e Cs"
  have pre2: "pre_parity n nk (components na2)"
    unfolding na2_def n_def by (rule with_entity_pre [OF pre])
  have present: "\<forall>c<RECS_MAX_COMPONENTS. key_has nk c \<longrightarrow> components na2 c \<noteq> None"
    unfolding na2_def nk using with_entity_present [where kold = 0 and na = na and e = e and adding = adding and Cs = Cs]
    by simp
  define comps where "comps = (\<lambda>c. if c < RECS_MAX_COMPONENTS \<and> key_has nk c
      then Some (emplace_default (the (components na2 c))) else components na2 c)"
  have loop: "for_ids [0..<RECS_MAX_COMPONENTS] (default_step nk) (components na2) = Inr comps"
    unfolding comps_def by (rule default_loop_eq [OF present])
  define w' where "w' = w\<lparr>archetypes := AList.update nk (na2\<lparr>components := comps\<rparr>) archs1,
      entity_locations := (entity_locations w)[unat (eid e) := \<lparr>arch = Some nk, index = n\<rparr>]\<rparr>"
  from migrate_fresh_eq [OF r none nk na [unfolded archs1_def] loop [unfolded na2_def]]
  obtain calls where m: "migrate Cs e adding w = Inr (w', calls)"
    unfolding w'_def na2_def archs1_def n_def by blast
  have ok': "archs_ok (archetypes w')" by (rule migrate_ok [OF m ok])
  have n': "map_of (archetypes w') nk = Some (na2\<lparr>components := comps\<rparr>)"
    by (simp add: w'_def update_conv')
  have loc': "entity_locations w' ! unat (eid e) = \<lparr>arch = Some nk, index = n\<rparr>"
    and len': "length (entity_locations w') = length (entity_locations w)"
    using r by (simp_all add: w'_def)
  have ents2: "entities na2 = entities na @ [e]" by (simp add: na2_def)
  have "archs_in_range (length (entity_locations w)) archs1"
    unfolding archs1_def by (rule get_or_create_in_range [OF rng])
  then have rng': "archs_in_range (length (entity_locations w')) (archetypes w')"
    unfolding len' using na r
    by (auto simp: w'_def ents2 archs_in_range_def update_conv')
  have lo: "location_ok e w'"
    using r by (simp add: location_ok_def loc' len' n' ents2 n_def)
  have ko: "key_of e w' = nk" by (simp add: key_of_def loc' n' na2_def k)
  have cells: "cell c e w' = 0" if h: "key_has nk c" for c
  proof -
    have c: "c < RECS_MAX_COMPONENTS" using key_has_less [OF h] by (simp add: RECS_MAX_COMPONENTS_def)
    with present h obtain d where d: "components na2 c = Some d" by auto
    have "length d = n" by (rule pre_parity_length [OF pre2 h d])
    then have "(d @ [0]) ! n = 0" by (simp add: nth_append)
    then show ?thesis using c h d
      by (simp add: cell_def loc' n' column_def comps_def emplace_default_def)
  qed
  have "generations w' = generations w" by (simp add: w'_def)
  with m ok' rng' lo ko cells loc' show ?thesis by auto
qed

lemma migrate_spec_move:
  assumes ok: "archs_ok (archetypes w)"
    and rng: "archs_in_range (length (entity_locations w)) (archetypes w)"
    and r: "unat (eid e) < length (entity_locations w)"
    and some: "arch (entity_locations w ! unat (eid e)) = Some old"
    and oa: "map_of (archetypes w) old = Some oa"
    and oi: "index (entity_locations w ! unat (eid e)) < length (entities oa)"
    and nk: "nk = new_key_of adding (key oa) Cs"
    and diff: "nk \<noteq> old"
  shows "\<exists>w' calls. migrate Cs e adding w = Inr (w', calls) \<and>
      archs_ok (archetypes w') \<and> archs_in_range (length (entity_locations w')) (archetypes w') \<and>
      location_ok e w' \<and> arch (entity_locations w' ! unat (eid e)) = Some nk \<and> key_of e w' = nk \<and>
      generations w' = generations w \<and>
      (\<forall>c. key_has nk c \<longrightarrow>
         cell c e w' = (if key_has (key oa) c then column oa c ! index (entity_locations w ! unat (eid e)) else 0))"
proof -
  define i where "i = index (entity_locations w ! unat (eid e))"
  define archs1 where "archs1 = get_or_create_archetype nk (archetypes w)"
  from get_or_create_props [OF ok, of nk] obtain na where
    na: "map_of archs1 nk = Some na" and k: "key na = nk"
    and pre: "pre_parity (length (entities na)) nk (components na)"
    and ext: "\<forall>k a. map_of (archetypes w) k = Some a \<longrightarrow> map_of archs1 k = Some a"
    unfolding archs1_def by blast
  from oa ok have ko: "key oa = old" and po: "arch_parity oa" by (auto simp: archs_ok_def)
  define n where "n = length (entities na)"
  define na2 where "na2 = with_entity adding na e Cs"
  have ents2: "entities na2 = entities na @ [e]" and k2: "key na2 = nk" by (simp_all add: na2_def k)
  have pre2: "pre_parity n nk (components na2)"
    unfolding na2_def n_def by (rule with_entity_pre [OF pre])
  define archs2 where "archs2 = AList.update nk na2 archs1"
  have n2: "map_of archs2 nk = Some na2" by (simp add: archs2_def update_conv')
  have o2: "map_of archs2 old = Some oa" using oa ext diff by (simp add: archs2_def update_conv')
  define F where "F = (\<lambda>c. if c < RECS_MAX_COMPONENTS \<and> key_has nk c \<and> components na2 c = None \<and> key_has (key oa) c
              then clone_empty (components oa c) else components na2 c)"
  define archs3 where "archs3 = AList.update nk (na2\<lparr>components := F\<rparr>) archs2"
  have clone: "for_ids [0..<RECS_MAX_COMPONENTS] (clone_step old nk) archs2 = Inr archs3"
    unfolding archs3_def F_def by (rule clone_loop_eq [OF n2 o2])
  have ocol: "components oa c = Some (column oa c) \<and> length (column oa c) = length (entities oa)"
    if "key_has (key oa) c" for c by (rule parity_column [OF po that])
  have preF: "pre_parity n nk F"
    using pre2 by (auto simp: pre_parity_def F_def clone_empty_def split: option.splits)
  have presentF: "F c \<noteq> None" if h: "key_has nk c" for c
  proof (cases "components na2 c")
    case (Some d)
    then show ?thesis by (simp add: F_def)
  next
    case None
    then have "key_has (key oa) c"
      using with_entity_present [where kold = "key oa" and na = na and e = e and adding = adding and Cs = Cs and c = c] h
      by (auto simp: na2_def nk)
    moreover have "c < RECS_MAX_COMPONENTS" using key_has_less [OF h] by (simp add: RECS_MAX_COMPONENTS_def)
    ultimately show ?thesis using None h ocol [of c] by (simp add: F_def clone_empty_def)
  qed
  have n3: "map_of archs3 nk = Some (na2\<lparr>components := F\<rparr>)" by (simp add: archs3_def update_conv')
  have o3: "map_of archs3 old = Some oa" using o2 diff by (simp add: archs3_def update_conv')
  define G where "G = (\<lambda>c. if c < RECS_MAX_COMPONENTS \<and> key_has nk c
              then Some (the (F c) @ [if key_has (key oa) c then the (components oa c) ! i else 0])
              else F c)"
  define archs4 where "archs4 = AList.update nk (na2\<lparr>components := G\<rparr>) archs3"
  have cond: "\<forall>c<RECS_MAX_COMPONENTS. key_has nk c \<longrightarrow> components (na2\<lparr>components := F\<rparr>) c \<noteq> None \<and>
            (key_has (key oa) c \<longrightarrow> (\<exists>s. components oa c = Some s \<and> i < length s))"
    using presentF ocol oi by (auto simp: i_def)
  have copy: "for_ids [0..<RECS_MAX_COMPONENTS] (copy_step old nk i) archs3 = Inr archs4"
    using copy_loop_eq [OF n3 o3 cond] by (simp add: archs4_def G_def cong: if_cong)
  have o4: "map_of archs4 old = Some oa" using o3 diff by (simp add: archs4_def update_conv')
  have n4: "map_of archs4 nk = Some (na2\<lparr>components := G\<rparr>)" by (simp add: archs4_def update_conv')
  have moved: "unat (eid (entities oa ! (length (entities oa) - 1))) < length (entity_locations w)"
  proof -
    have "entities oa ! (length (entities oa) - 1) \<in> set (entities oa)" using oi by simp
    then show ?thesis using rng oa by (auto simp: archs_in_range_def)
  qed
  from remove_from_archetype_succeeds [of "w\<lparr>archetypes := archs4\<rparr>" old oa i e] o4 po oi moved r
  obtain a' locs' where
    rm: "remove_from_archetype e old i (w\<lparr>archetypes := archs4\<rparr>) =
       Inr (w\<lparr>archetypes := AList.update old a' archs4, entity_locations := locs'\<rparr>)"
    and sub: "set (entities a') \<subseteq> set (entities oa)"
    and len: "length locs' = length (entity_locations w)"
    by (auto simp: i_def)
  define w' where "w' = w\<lparr>archetypes := AList.update old a' archs4,
      entity_locations := locs'[unat (eid e) := \<lparr>arch = Some nk, index = n\<rparr>]\<rparr>"
  from migrate_move_eq [OF r some oa nk na [unfolded archs1_def]
      clone [unfolded archs2_def na2_def archs1_def] copy [unfolded i_def] rm [unfolded i_def]]
  obtain calls where m: "migrate Cs e adding w = Inr (w', calls)"
    unfolding w'_def n_def by auto
  have ok': "archs_ok (archetypes w')" by (rule migrate_ok [OF m ok])
  have n': "map_of (archetypes w') nk = Some (na2\<lparr>components := G\<rparr>)"
    using n4 diff by (simp add: w'_def update_conv')
  have loc': "entity_locations w' ! unat (eid e) = \<lparr>arch = Some nk, index = n\<rparr>"
    and len': "length (entity_locations w') = length (entity_locations w)"
    using r len by (simp_all add: w'_def)
  have r1: "archs_in_range (length (entity_locations w)) archs1"
    unfolding archs1_def by (rule get_or_create_in_range [OF rng])
  have in_na: "\<forall>x\<in>set (entities na @ [e]). unat (eid x) < length (entity_locations w)"
    using r1 na r by (auto simp: archs_in_range_def)
  have in_a': "\<forall>x\<in>set (entities a'). unat (eid x) < length (entity_locations w)"
    using sub rng oa by (auto simp: archs_in_range_def)
  have rng': "archs_in_range (length (entity_locations w')) (archetypes w')"
  proof -
    have "archs_in_range (length (entity_locations w)) archs4"
      unfolding archs4_def archs3_def archs2_def
      using r1 in_na by (intro archs_in_range_update) (simp_all add: ents2)
    then have "archs_in_range (length (entity_locations w)) (AList.update old a' archs4)"
      using in_a' by (rule archs_in_range_update)
    then show ?thesis by (simp add: len w'_def)
  qed
  have lo: "location_ok e w'"
    using r by (simp add: location_ok_def loc' len' n' ents2 n_def)
  have kf: "key_of e w' = nk" by (simp add: key_of_def loc' n' k2)
  have cells: "cell c e w' = (if key_has (key oa) c then column oa c ! i else 0)" if h: "key_has nk c" for c
  proof -
    have c: "c < RECS_MAX_COMPONENTS" using key_has_less [OF h] by (simp add: RECS_MAX_COMPONENTS_def)
    from presentF [OF h] obtain d where d: "F c = Some d" by auto
    have "length d = n" by (rule pre_parity_length [OF preF h d])
    then have nth: "(d @ [x]) ! n = x" for x by (simp add: nth_append)
    have colG: "column (na2\<lparr>components := G\<rparr>) c =
        d @ [if key_has (key oa) c then the (components oa c) ! i else 0]"
      using c h d by (simp add: column_def G_def)
    have oc: "the (components oa c) = column oa c" if "key_has (key oa) c"
      using ocol [OF that] by simp
    show ?thesis using oc by (simp add: cell_def loc' n' colG nth)
  qed
  have "generations w' = generations w" by (simp add: w'_def)
  with m ok' rng' lo kf cells loc' show ?thesis by (auto simp: i_def)
qed

lemma migrate_spec:
  assumes ok: "archs_ok (archetypes w)"
    and rng: "archs_in_range (length (entity_locations w)) (archetypes w)"
    and loc: "location_ok e w"
    and nk: "nk = new_key_of adding (key_of e w) Cs"
    and diff: "arch (entity_locations w ! unat (eid e)) = None \<or> nk \<noteq> key_of e w"
  shows "\<exists>w' calls. migrate Cs e adding w = Inr (w', calls) \<and>
      archs_ok (archetypes w') \<and> archs_in_range (length (entity_locations w')) (archetypes w') \<and>
      location_ok e w' \<and> arch (entity_locations w' ! unat (eid e)) = Some nk \<and> key_of e w' = nk \<and>
      generations w' = generations w \<and>
      (\<forall>c. key_has nk c \<longrightarrow> cell c e w' = (if key_has (key_of e w) c then cell c e w else 0))"
proof (cases "arch (entity_locations w ! unat (eid e))")
  case None
  from loc have r: "unat (eid e) < length (entity_locations w)" by (simp add: location_ok_def)
  have k0: "key_of e w = 0" using None by (simp add: key_of_def)
  from migrate_spec_fresh [OF ok rng r None nk [unfolded k0]] show ?thesis by (simp add: k0)
next
  case (Some old)
  from loc Some obtain oa where r: "unat (eid e) < length (entity_locations w)"
    and oa: "map_of (archetypes w) old = Some oa"
    and oi: "index (entity_locations w ! unat (eid e)) < length (entities oa)"
    by (auto simp: location_ok_def split: option.splits)
  from oa ok have ko: "key oa = old" by (auto simp: archs_ok_def)
  have kf: "key_of e w = key oa" using Some oa by (simp add: key_of_def)
  have d: "nk \<noteq> old" using diff Some kf ko by simp
  have c: "cell c e w = column oa c ! index (entity_locations w ! unat (eid e))" for c
    using Some oa by (simp add: cell_def)
  from migrate_spec_move [OF ok rng r Some oa oi nk [unfolded kf] d] show ?thesis
    unfolding kf c by (simp cong: if_cong)
qed

lemma sample_world_inv: "world_inv sample_world"
  using sample_world_parity by (simp add: world_inv_def keys_ok_def) (simp add: sample_world_def)

text \<open>
  Where the directory entry is sound, adding and removing again keeps the other values.
  Let the world satisfy the invariants of the data model (one archetype per mask, row
  parity, every stored entity has a directory slot), let the directory entry of \<open>e\<close> name
  a row of its archetype or no archetype, and let \<open>Cs\<close> contain a component that \<open>e\<close> does
  not hold. Then \<^verbatim>\<open>add<Cs...>(e)\<close> followed by \<^verbatim>\<open>remove<Cs...>(e)\<close> both return without a
  fault, and for every component outside \<open>Cs\<close> what \<^verbatim>\<open>get\<close> reads for \<open>e\<close> afterwards is what
  it read before. The hypothesis on the directory entry cannot be dropped: a migration
  into the archetype the entity is already in leaves the entry one past the last row,
  as in the run \<^verbatim>\<open>create()\<close>, \<^verbatim>\<open>add<C0>(e)\<close>, \<^verbatim>\<open>add<C0>(e)\<close>, \<^verbatim>\<open>add<C1>(e)\<close> above.
\<close>

lemma add_then_remove_keeps_other_components:
  assumes "world_inv w" and "ids_in_range w" and "location_ok e w"
    and "\<exists>c\<in>set Cs. c < RECS_MAX_COMPONENTS \<and> \<not> key_has (key_of e w) c"
  shows "\<exists>w1 calls1 w2 calls2.
      add Cs e w = Inr (w1, calls1) \<and> remove Cs e w1 = Inr (w2, calls2) \<and>
      (\<forall>c. c \<notin> set Cs \<longrightarrow> (\<exists>r. get_value c e w = Inr r \<and> get_value c e w2 = Inr r))"
proof -
  from assms(1) have ok: "archs_ok (archetypes w)" by (simp add: world_inv_archs_ok)
  from assms(2) ok have rng: "archs_in_range (length (entity_locations w)) (archetypes w)"
    by (simp add: ids_in_range_archs)
  from assms(4) obtain x where x: "x \<in> set Cs" "x < RECS_MAX_COMPONENTS" "\<not> key_has (key_of e w) x" by blast
  define K where "K = key_of e w"
  define k1 where "k1 = new_key_of True K Cs"
  define k2 where "k2 = new_key_of False k1 Cs"
  have h1: "key_has k1 c \<longleftrightarrow> key_has K c \<or> (c \<in> set Cs \<and> c < 64)" for c
    by (simp add: k1_def new_key_of_def key_has_foldl_add)
  have h2: "key_has k2 c \<longleftrightarrow> key_has K c \<and> c \<notin> set Cs" for c
    using key_has_less [of K c] by (auto simp: k2_def new_key_of_def key_has_foldl_remove h1)
  have "key_has k1 x" "\<not> key_has K x" "\<not> key_has k2 x"
    using x by (simp_all add: h1 h2 K_def RECS_MAX_COMPONENTS_def)
  then have d1: "k1 \<noteq> K" and d2: "k2 \<noteq> k1" by auto
  from migrate_spec [OF ok rng assms(3) k1_def [unfolded K_def]] d1
  obtain w1 calls1 where m1: "migrate Cs e True w = Inr (w1, calls1)"
    and ok1: "archs_ok (archetypes w1)"
    and rng1: "archs_in_range (length (entity_locations w1)) (archetypes w1)"
    and loc1: "location_ok e w1" and a1: "arch (entity_locations w1 ! unat (eid e)) = Some k1"
    and kf1: "key_of e w1 = k1" and g1: "generations w1 = generations w"
    and c1: "\<forall>c. key_has k1 c \<longrightarrow> cell c e w1 = (if key_has K c then cell c e w else 0)"
    by (auto simp: K_def)
  from migrate_spec [OF ok1 rng1 loc1 k2_def [folded kf1]] d2
  obtain w2 calls2 where m2: "migrate Cs e False w1 = Inr (w2, calls2)"
    and ok2: "archs_ok (archetypes w2)"
    and loc2: "location_ok e w2" and a2: "arch (entity_locations w2 ! unat (eid e)) = Some k2"
    and kf2: "key_of e w2 = k2" and g2: "generations w2 = generations w1"
    and c2: "\<forall>c. key_has k2 c \<longrightarrow> cell c e w2 = (if key_has k1 c then cell c e w1 else 0)"
    by (auto simp: kf1)
  have al: "alive_unsafe e w2 = alive_unsafe e w" by (simp add: alive_unsafe_def g1 g2)
  have same: "\<exists>r. get_value c e w = Inr r \<and> get_value c e w2 = Inr r" if c: "c \<notin> set Cs" for c
  proof (cases "key_has K c")
    case True
    then have "arch (entity_locations w ! unat (eid e)) \<noteq> None"
      by (auto simp: K_def key_of_def split: option.splits)
    moreover have "cell c e w2 = cell c e w" using True c c1 c2 by (simp add: h1 h2)
    ultimately show ?thesis
      using True c by (simp add: get_value_eq [OF ok assms(3)] get_value_eq [OF ok2 loc2] al a2 kf2 h2 K_def)
  next
    case False
    then show ?thesis
      by (simp add: get_value_eq [OF ok assms(3)] get_value_eq [OF ok2 loc2] kf2 h2 K_def)
  qed
  from m1 m2 same show ?thesis by (auto simp: add_def remove_def)
qed

lemma add_then_remove_on_sample_world:
  "world_inv sample_world \<and> ids_in_range sample_world \<and>
   location_ok \<lparr>eid = 1, generation = 0\<rparr> sample_world \<and>
   (2 :: nat) < RECS_MAX_COMPONENTS \<and> \<not> key_has (key_of \<lparr>eid = 1, generation = 0\<rparr> sample_world) 2 \<and>
   get_value 0 \<lparr>eid = 1, generation = 0\<rparr> sample_world = Inr (Some 7) \<and>
   get_value 1 \<lparr>eid = 1, generation = 0\<rparr> sample_world = Inr (Some 9) \<and>
   (\<exists>w1 calls1 w2 calls2.
      add [2] \<lparr>eid = 1, generation = 0\<rparr> sample_world = Inr (w1, calls1) \<and>
      remove [2] \<lparr>eid = 1, generation = 0\<rparr> w1 = Inr (w2, calls2) \<and>
      get_value 0 \<lparr>eid = 1, generation = 0\<rparr> w2 = Inr (Some 7) \<and>
      get_value 1 \<lparr>eid = 1, generation = 0\<rparr> w2 = Inr (Some 9))"
proof -
  let ?e = "\<lparr>eid = 1, generation = 0\<rparr>"
  have ir: "ids_in_range sample_world" by (simp add: ids_in_range_def sample_world_def)
  have lo: "location_ok ?e sample_world" by (simp add: location_ok_def sample_world_def)
  have b: "(2 :: nat) < RECS_MAX_COMPONENTS" by (simp add: RECS_MAX_COMPONENTS_def)
  have nh: "\<not> key_has (key_of ?e sample_world) 2" by (simp add: key_of_def sample_world_def)
  have g0: "get_value 0 ?e sample_world = Inr (Some 7)"
    by (simp add: get_value_def get_unsafe_def load_def alive_unsafe_def arch_at_def get_array_def
          bindF_def sample_world_def)
  have g1: "get_value 1 ?e sample_world = Inr (Some 9)"
    by (simp add: get_value_def get_unsafe_def load_def alive_unsafe_def arch_at_def get_array_def
          bindF_def sample_world_def)
  have h: "\<exists>c\<in>set [2]. c < RECS_MAX_COMPONENTS \<and> \<not> key_has (key_of ?e sample_world) c"
    using b nh by simp
  from add_then_remove_keeps_other_components [OF sample_world_inv ir lo h]
  obtain w1 calls1 w2 calls2 where
    m: "add [2] ?e sample_world = Inr (w1, calls1)" "remove [2] ?e w1 = Inr (w2, calls2)"
    and same: "\<forall>c. c \<notin> set [2] \<longrightarrow> (\<exists>r. get_value c ?e sample_world = Inr r \<and> get_value c ?e w2 = Inr r)"
    by blast
  have "get_value 0 ?e w2 = Inr (Some 7)" using same [rule_format, of 0] g0 by auto
  moreover have "get_value 1 ?e w2 = Inr (Some 9)" using same [rule_format, of 1] g1 by auto
  ultimately show ?thesis using m sample_world_inv ir lo b nh g0 g1 by blast
qed

section \<open>Migration into the archetype the entity is already in\<close>

text \<open>
  When the new key of \<open>migrate\<close> is the key the entity already has, the entity is pushed
  onto its own archetype, its component values are copied to the new last row, and the
  old row is swap-removed: the archetype ends as it began. The directory entry of the
  entity, however, is set to the size the archetype had before the push, which is one
  past its last row. This is what adding a held component and removing an absent one do.
\<close>

lemma hook_calls_handlers:
  "event_handlers w' = event_handlers w \<Longrightarrow> hook_calls adding Cs e w' = hook_calls adding Cs e w"
  by (simp add: hook_calls_def fire_component_added_def fire_component_removed_def)

lemma migrate_move_calls:
  assumes "unat (eid e) < length (entity_locations w)"
    and "arch (entity_locations w ! unat (eid e)) = Some old"
    and "map_of (archetypes w) old = Some oa"
    and "nk = new_key_of adding (key oa) Cs"
    and "map_of (get_or_create_archetype nk (archetypes w)) nk = Some na"
    and "for_ids [0..<RECS_MAX_COMPONENTS] (clone_step old nk)
          (AList.update nk (with_entity adding na e Cs) (get_or_create_archetype nk (archetypes w))) = Inr archs3"
    and "for_ids [0..<RECS_MAX_COMPONENTS] (copy_step old nk (index (entity_locations w ! unat (eid e)))) archs3 = Inr archs4"
    and "remove_from_archetype e old (index (entity_locations w ! unat (eid e))) (w\<lparr>archetypes := archs4\<rparr>) = Inr w1"
    and "w2 = w1\<lparr>entity_locations := (entity_locations w1)[unat (eid e) := \<lparr>arch = Some nk, index = length (entities na)\<rparr>]\<rparr>"
  shows "migrate Cs e adding w = Inr (w2, hook_calls adding Cs e w2)"
  using assms
  by (cases adding)
     (simp_all add: migrate_def new_key_of_def with_entity_def hook_calls_def Let_def bindF_def arch_at_def)

lemma ensure_array_noop:
  "\<forall>c\<in>set Cs. components a c \<noteq> None \<Longrightarrow> foldl ensure_array a Cs = a"
  by (induction Cs arbitrary: a) (auto simp: ensure_array_def)

lemma swap_remove_pushed_entities:
  assumes "i < length xs" and "xs ! i = e"
  shows "butlast ((xs @ [e])[i := (xs @ [e]) ! (length (xs @ [e]) - 1)]) = xs"
proof -
  have "(xs @ [e])[i := e] = xs[i := e] @ [e]" using assms(1) by (simp add: list_update_append)
  also have "xs[i := e] = xs" using assms by (metis list_update_id)
  finally show ?thesis by simp
qed

lemma swap_remove_copied_column:
  assumes "i < length vec"
  shows "butlast ((vec @ [vec ! i])[i := (vec @ [vec ! i]) ! length vec]) = vec"
proof -
  have "(vec @ [vec ! i])[i := vec ! i] = vec[i := vec ! i] @ [vec ! i]"
    using assms by (simp add: list_update_append)
  then show ?thesis by simp
qed

lemma migrate_same:
  assumes ok: "archs_ok (archetypes w)"
    and r: "unat (eid e) < length (entity_locations w)"
    and some: "arch (entity_locations w ! unat (eid e)) = Some k"
    and a: "map_of (archetypes w) k = Some a"
    and i: "index (entity_locations w ! unat (eid e)) < length (entities a)"
    and ei: "entities a ! index (entity_locations w ! unat (eid e)) = e"
    and same: "new_key_of adding k Cs = k"
    and bounded: "adding \<longrightarrow> (\<forall>c\<in>set Cs. c < RECS_MAX_COMPONENTS)"
  shows "migrate Cs e adding w =
     Inr (w\<lparr>entity_locations := (entity_locations w)[unat (eid e) := \<lparr>arch = Some k, index = length (entities a)\<rparr>]\<rparr>,
          hook_calls adding Cs e w)"
proof -
  define i0 where "i0 = index (entity_locations w ! unat (eid e))"
  define n where "n = length (entities a)"
  from a ok have ka: "key a = k" and pa: "arch_parity a" by (auto simp: archs_ok_def)
  have col: "components a c = Some (column a c) \<and> length (column a c) = n" if "key_has k c" for c
    using parity_column [OF pa, of c] that by (simp add: ka n_def)
  have nk: "k = new_key_of adding (key a) Cs" using same ka by simp
  have g: "get_or_create_archetype k (archetypes w) = archetypes w"
    using a by (simp add: get_or_create_archetype_def)
  define a2 where "a2 = a\<lparr>entities := entities a @ [e]\<rparr>"
  have we: "with_entity adding a e Cs = a2"
  proof (cases adding)
    case False
    then show ?thesis by (simp add: with_entity_def a2_def)
  next
    case True
    have "components a2 c \<noteq> None" if "c \<in> set Cs" for c
    proof -
      from that bounded True have "c < 64" by (auto simp: RECS_MAX_COMPONENTS_def)
      with that have "key_has (new_key_of True k Cs) c" by (simp add: new_key_of_def key_has_foldl_add)
      then have "key_has k c" using same True by simp
      then show ?thesis using col by (simp add: a2_def)
    qed
    then have "foldl ensure_array a2 Cs = a2" by (intro ensure_array_noop) simp
    then show ?thesis using True by (simp add: with_entity_def a2_def)
  qed
  define archs2 where "archs2 = AList.update k a2 (archetypes w)"
  have m2: "map_of archs2 k = Some a2" by (simp add: archs2_def update_conv')
  have F: "(\<lambda>c. if c < RECS_MAX_COMPONENTS \<and> key_has k c \<and> components a2 c = None \<and> key_has (key a2) c
              then clone_empty (components a2 c) else components a2 c) = components a2"
    by (auto simp: fun_eq_iff clone_empty_def)
  have clone: "for_ids [0..<RECS_MAX_COMPONENTS] (clone_step k k) archs2 = Inr archs2"
    using clone_loop_eq [OF m2 m2, of RECS_MAX_COMPONENTS] m2 by (simp add: F update_triv)
  define G where "G = (\<lambda>c. if c < RECS_MAX_COMPONENTS \<and> key_has k c
      then Some (column a c @ [column a c ! i0]) else components a c)"
  define a4 where "a4 = a2\<lparr>components := G\<rparr>"
  define archs4 where "archs4 = AList.update k a4 (archetypes w)"
  have cond: "\<forall>c<RECS_MAX_COMPONENTS. key_has k c \<longrightarrow> components a2 c \<noteq> None \<and>
      (key_has (key a2) c \<longrightarrow> (\<exists>s. components a2 c = Some s \<and> i0 < length s))"
    using col i by (auto simp: a2_def ka i0_def n_def)
  have G': "(\<lambda>c. if c < RECS_MAX_COMPONENTS \<and> key_has k c
      then Some (the (components a2 c) @ [if key_has (key a2) c then the (components a2 c) ! i0 else 0])
      else components a2 c) = G"
    using col by (auto simp: fun_eq_iff G_def a2_def ka)
  have copy: "for_ids [0..<RECS_MAX_COMPONENTS] (copy_step k k i0) archs2 = Inr archs4"
    using copy_loop_eq [OF m2 m2 cond] by (simp add: G' archs4_def archs2_def a4_def)
  have m4: "map_of archs4 k = Some a4" by (simp add: archs4_def update_conv')
  define l where "l = length (entities a4) - Suc 0"
  have l: "l = n" by (simp add: l_def a4_def a2_def n_def)
  have pop_cond: "\<forall>c<RECS_MAX_COMPONENTS. key_has (key a4) c \<longrightarrow>
      (\<exists>vec. components a4 c = Some vec \<and> i0 < length vec \<and> l < length vec)"
    using col i by (auto simp: a4_def a2_def G_def ka l i0_def n_def)
  have P: "(\<lambda>c. if c < RECS_MAX_COMPONENTS \<and> key_has (key a4) c
      then Some (butlast ((the (components a4 c))[i0 := the (components a4 c) ! l])) else components a4 c)
      = components a"
  proof
    fix c
    show "(if c < RECS_MAX_COMPONENTS \<and> key_has (key a4) c
      then Some (butlast ((the (components a4 c))[i0 := the (components a4 c) ! l])) else components a4 c)
      = components a c"
    proof (cases "c < RECS_MAX_COMPONENTS \<and> key_has k c")
      case True
      with col [of c] have c1: "components a c = Some (column a c)" and c2: "length (column a c) = n" by auto
      have "butlast ((column a c @ [column a c ! i0])[i0 := (column a c @ [column a c ! i0]) ! length (column a c)])
          = column a c"
        by (rule swap_remove_copied_column) (use i c2 in \<open>simp add: i0_def n_def\<close>)
      then show ?thesis using True c1 c2 by (simp add: a4_def a2_def G_def ka l)
    next
      case False
      then show ?thesis by (auto simp: a4_def a2_def G_def ka)
    qed
  qed
  have pop: "for_ids [0..<RECS_MAX_COMPONENTS] (pop_step (key a4) i0 l) (components a4) = Inr (components a)"
    using pop_loop_eq [OF pop_cond] by (simp add: P)
  have moved: "entities a4 ! l = e" by (simp add: a4_def a2_def l n_def)
  have ents: "butlast ((entities a4)[i0 := e]) = entities a"
    using swap_remove_pushed_entities [OF i ei] by (simp add: a4_def a2_def i0_def)
  have restored: "a4\<lparr>entities := entities a, components := components a\<rparr> = a" by (simp add: a4_def a2_def)
  have upd: "AList.update k a archs4 = archetypes w"
    using a by (simp add: archs4_def update_triv)
  define locs1 where "locs1 = ((entity_locations w)[unat (eid e) :=
      (entity_locations w ! unat (eid e))\<lparr>index := i0\<rparr>])[unat (eid e) := \<lparr>arch = None, index = 0\<rparr>]"
  have ne: "entities a4 \<noteq> []" and i4: "\<not> length (entities a4) \<le> i0"
    using i by (simp_all add: a4_def a2_def i0_def)
  have e_in: "\<not> length (entity_locations w) \<le> unat (eid e)" using r by simp
  have rm: "remove_from_archetype e k i0 (w\<lparr>archetypes := archs4\<rparr>) =
      Inr (w\<lparr>archetypes := archetypes w, entity_locations := locs1\<rparr>)"
    unfolding remove_from_archetype_def
    by (simp add: arch_at_def m4 bindF_def Let_def ne i4 l_def [symmetric] pop moved ents e_in restored upd locs1_def)
  define w2 where "w2 = w\<lparr>entity_locations := (entity_locations w)[unat (eid e) := \<lparr>arch = Some k, index = n\<rparr>]\<rparr>"
  have w2: "w2 = (w\<lparr>archetypes := archetypes w, entity_locations := locs1\<rparr>)\<lparr>entity_locations :=
      (entity_locations (w\<lparr>archetypes := archetypes w, entity_locations := locs1\<rparr>))[unat (eid e) :=
         \<lparr>arch = Some k, index = length (entities a)\<rparr>]\<rparr>"
    by (simp add: w2_def locs1_def n_def)
  have "migrate Cs e adding w = Inr (w2, hook_calls adding Cs e w2)"
  proof (rule migrate_move_calls [OF r some a nk])
    show "map_of (get_or_create_archetype k (archetypes w)) k = Some a" by (simp add: g a)
    show "for_ids [0..<RECS_MAX_COMPONENTS] (clone_step k k)
        (AList.update k (with_entity adding a e Cs) (get_or_create_archetype k (archetypes w))) = Inr archs2"
      using clone by (simp add: g we archs2_def)
    show "for_ids [0..<RECS_MAX_COMPONENTS] (copy_step k k (index (entity_locations w ! unat (eid e)))) archs2
        = Inr archs4" using copy by (simp add: i0_def)
    show "remove_from_archetype e k (index (entity_locations w ! unat (eid e))) (w\<lparr>archetypes := archs4\<rparr>)
        = Inr (w\<lparr>archetypes := archetypes w, entity_locations := locs1\<rparr>)" using rm by (simp add: i0_def)
    show "w2 = (w\<lparr>archetypes := archetypes w, entity_locations := locs1\<rparr>)\<lparr>entity_locations :=
      (entity_locations (w\<lparr>archetypes := archetypes w, entity_locations := locs1\<rparr>))[unat (eid e) :=
         \<lparr>arch = Some k, index = length (entities a)\<rparr>]\<rparr>" by (rule w2)
  qed
  moreover have "hook_calls adding Cs e w2 = hook_calls adding Cs e w"
    by (rule hook_calls_handlers) (simp add: w2_def)
  ultimately show ?thesis by (simp add: w2_def n_def)
qed


lemma key_eqI: "(\<And>c. key_has m c = key_has m' c) \<Longrightarrow> m = m'"
  by (simp add: key_has_bit bit_eq_iff)

lemma key_remove_absent: "\<not> key_has k c \<Longrightarrow> key_remove k c = k"
  by (rule key_eqI) (auto simp: key_has_remove)

lemma key_add_present: "key_has k c \<Longrightarrow> key_add k c = k"
  by (rule key_eqI) (auto simp: key_has_add dest: key_has_less)

lemma directory_consistentD:
  assumes "directory_consistent e w"
  obtains k a where "unat (eid e) < length (entity_locations w)"
    and "arch (entity_locations w ! unat (eid e)) = Some k"
    and "map_of (archetypes w) k = Some a"
    and "index (entity_locations w ! unat (eid e)) < length (entities a)"
    and "entities a ! index (entity_locations w ! unat (eid e)) = e"
  using assms by (auto simp: directory_consistent_def split: option.splits)

lemma remove_absent_component:
  assumes inv: "world_inv w" and dc: "directory_consistent e w" and absent: "\<not> key_has (key_of e w) c"
  shows "\<exists>k a. arch (entity_locations w ! unat (eid e)) = Some k \<and> map_of (archetypes w) k = Some a \<and>
     remove [c] e w =
       Inr (w\<lparr>entity_locations := (entity_locations w)[unat (eid e) := \<lparr>arch = Some k, index = length (entities a)\<rparr>]\<rparr>,
            fire_component_removed c e w)"
proof -
  from inv have ok: "archs_ok (archetypes w)" by (simp add: world_inv_archs_ok)
  from dc obtain k a where r: "unat (eid e) < length (entity_locations w)"
    and some: "arch (entity_locations w ! unat (eid e)) = Some k"
    and a: "map_of (archetypes w) k = Some a"
    and i: "index (entity_locations w ! unat (eid e)) < length (entities a)"
    and ei: "entities a ! index (entity_locations w ! unat (eid e)) = e"
    by (rule directory_consistentD)
  from a ok have ka: "key a = k" by (auto simp: archs_ok_def)
  have "key_of e w = k" using some a ka by (simp add: key_of_def)
  with absent have same: "new_key_of False k [c] = k" by (simp add: new_key_of_def key_remove_absent)
  from migrate_same [OF ok r some a i ei same] some a show ?thesis
    by (simp add: remove_def hook_calls_def)
qed

lemma add_held_component:
  assumes inv: "world_inv w" and dc: "directory_consistent e w" and held: "key_has (key_of e w) c"
  shows "\<exists>k a. arch (entity_locations w ! unat (eid e)) = Some k \<and> map_of (archetypes w) k = Some a \<and>
     add [c] e w =
       Inr (w\<lparr>entity_locations := (entity_locations w)[unat (eid e) := \<lparr>arch = Some k, index = length (entities a)\<rparr>]\<rparr>,
            fire_component_added c e w)"
proof -
  from inv have ok: "archs_ok (archetypes w)" by (simp add: world_inv_archs_ok)
  from dc obtain k a where r: "unat (eid e) < length (entity_locations w)"
    and some: "arch (entity_locations w ! unat (eid e)) = Some k"
    and a: "map_of (archetypes w) k = Some a"
    and i: "index (entity_locations w ! unat (eid e)) < length (entities a)"
    and ei: "entities a ! index (entity_locations w ! unat (eid e)) = e"
    by (rule directory_consistentD)
  from a ok have ka: "key a = k" by (auto simp: archs_ok_def)
  have kf: "key_of e w = k" using some a ka by (simp add: key_of_def)
  with held have same: "new_key_of True k [c] = k" by (simp add: new_key_of_def key_add_present)
  have b: "True \<longrightarrow> (\<forall>x\<in>set [c]. x < RECS_MAX_COMPONENTS)"
    using key_has_less [OF held] by (simp add: RECS_MAX_COMPONENTS_def)
  from migrate_same [OF ok r some a i ei same b] some a show ?thesis
    by (simp add: add_def hook_calls_def)
qed

lemma same_archetype_breaks_directory:
  assumes "world_inv w" and "directory_consistent e w"
    and "(key_has (key_of e w) c \<and> add [c] e w = Inr (w', calls)) \<or>
         (\<not> key_has (key_of e w) c \<and> remove [c] e w = Inr (w', calls))"
  shows "\<not> directory_consistent e w'"
proof -
  from assms(2) have r: "unat (eid e) < length (entity_locations w)" by (rule directory_consistentD)
  from assms(3) obtain k a where a: "map_of (archetypes w) k = Some a"
    and w': "w' = w\<lparr>entity_locations := (entity_locations w)[unat (eid e) := \<lparr>arch = Some k, index = length (entities a)\<rparr>]\<rparr>"
    using add_held_component [OF assms(1,2), of c] remove_absent_component [OF assms(1,2), of c] by auto
  show ?thesis using r a by (simp add: w' directory_consistent_def)
qed

end
